theory Spec2Isabelle
  imports Main
begin

section \<open>Python string operations used by the notebook\<close>

text \<open>
  Python's \<^verbatim>\<open>str\<close> is modelled as \<^typ>\<open>string\<close>. The operations below are the
  ones the artifact-copy cell of the notebook applies to its arguments.
\<close>

definition rstrip :: "string \<Rightarrow> char \<Rightarrow> string" where
  \<comment> \<open>\<^verbatim>\<open>s.rstrip(c)\<close> for a one-character argument: every trailing \<open>c\<close> is removed.\<close>
  "rstrip s c = rev (dropWhile (\<lambda>x. x = c) (rev s))"

definition startswith :: "string \<Rightarrow> string \<Rightarrow> bool" where
  \<comment> \<open>\<^verbatim>\<open>s.startswith(p)\<close>\<close>
  "startswith s p = (take (length p) s = p)"

definition strip_prefix :: "string \<Rightarrow> string \<Rightarrow> string" where
  \<comment> \<open>\<^verbatim>\<open>mlflow.utils.string_utils.strip_prefix\<close>: the prefix is removed once when present.\<close>
  "strip_prefix original prefix =
     (if startswith original prefix then drop (length prefix) original else original)"

fun str_in :: "string \<Rightarrow> string \<Rightarrow> bool" where
  \<comment> \<open>\<^verbatim>\<open>needle in hay\<close> on strings: \<open>needle\<close> occurs as a contiguous substring.\<close>
  "str_in needle [] = (needle = [])"
| "str_in needle (c # cs) = (startswith (c # cs) needle \<or> str_in needle cs)"

section \<open>The destination endpoint\<close>

definition get_dbfs_endpoint :: "string \<Rightarrow> string \<Rightarrow> string" where
  \<comment> \<open>\<^verbatim>\<open>_get_dbfs_endpoint\<close> (an Isabelle name cannot start with an underscore):
      \<^verbatim>\<open>"/dbfs/%s/%s" % (strip_prefix(artifact_uri.rstrip('/'), 'dbfs:/'), strip_prefix(artifact_path, '/'))\<close>\<close>
  "get_dbfs_endpoint artifact_uri artifact_path =
     ''/dbfs/'' @ strip_prefix (rstrip artifact_uri (CHR ''/'')) ''dbfs:/''
       @ ''/'' @ strip_prefix artifact_path ''/''"

section \<open>Exceptions\<close>

text \<open>
  Every exception the cell can raise is a value. \<open>NameError\<close> carries the name that is
  not defined; \<open>OSError\<close> carries the path of the file the operating system refused.
\<close>

datatype exn =
    MlflowException (message: string)
  | NameError string
  | OSError string
  | AttributeError string
  | ValueError string
  | OtherException string

section \<open>Path functions of the host\<close>

text \<open>
  \<^verbatim>\<open>os.path\<close> is \<^verbatim>\<open>posixpath\<close> on a POSIX host and \<^verbatim>\<open>ntpath\<close> on Windows. The cell
  uses \<^verbatim>\<open>os.path.join\<close>, \<^verbatim>\<open>os.path.basename\<close> and \<^verbatim>\<open>os.path.relpath\<close> of the host and
  \<^verbatim>\<open>posixpath.join\<close> for artifact paths. The library functions are modelled for paths
  without a drive letter: every local path of the cell starts with \<^verbatim>\<open>/dbfs/\<close>.
\<close>

datatype host = Posix | Nt

definition os_sep :: "host \<Rightarrow> char" where
  \<comment> \<open>\<^verbatim>\<open>os.sep\<close>: the slash, or the backslash (character 0x5C) on Windows.\<close>
  "os_sep h = (case h of Posix \<Rightarrow> CHR ''/'' | Nt \<Rightarrow> CHR 0x5C)"

definition is_sep :: "host \<Rightarrow> char \<Rightarrow> bool" where
  \<comment> \<open>\<^verbatim>\<open>ntpath\<close> accepts both separators, \<^verbatim>\<open>posixpath\<close> only the slash.\<close>
  "is_sep h c = (c = CHR ''/'' \<or> (h = Nt \<and> c = CHR 0x5C))"

definition os_path_join :: "host \<Rightarrow> string \<Rightarrow> string \<Rightarrow> string" where
  \<comment> \<open>\<^verbatim>\<open>os.path.join(a, b)\<close>: an absolute \<open>b\<close> replaces \<open>a\<close>; otherwise \<open>b\<close> is appended,
      after a separator unless \<open>a\<close> is empty or already ends with one.\<close>
  "os_path_join h a b =
     (if b \<noteq> [] \<and> is_sep h (hd b) then b
      else if a = [] \<or> is_sep h (last a) then a @ b
      else a @ [os_sep h] @ b)"

definition posixpath_join :: "string \<Rightarrow> string \<Rightarrow> string" where
  \<comment> \<open>\<^verbatim>\<open>posixpath.join(a, b)\<close>, whatever the host is.\<close>
  "posixpath_join a b = os_path_join Posix a b"

definition os_path_basename :: "host \<Rightarrow> string \<Rightarrow> string" where
  \<comment> \<open>\<^verbatim>\<open>os.path.basename(p)\<close>: what follows the last separator.\<close>
  "os_path_basename h p = rev (takeWhile (\<lambda>c. \<not> is_sep h c) (rev p))"

fun split_on :: "(char \<Rightarrow> bool) \<Rightarrow> string \<Rightarrow> string list" where
  \<comment> \<open>\<^verbatim>\<open>str.split\<close> at every separator character; empty pieces are kept.\<close>
  "split_on P [] = [[]]"
| "split_on P (c # cs) =
     (if P c then [] # split_on P cs
      else (case split_on P cs of [] \<Rightarrow> [[c]] | piece # pieces \<Rightarrow> (c # piece) # pieces))"

definition norm_step :: "string list \<Rightarrow> string \<Rightarrow> string list" where
  \<comment> \<open>One round of the loop of \<^verbatim>\<open>normpath\<close> on an absolute path: empty and \<^verbatim>\<open>.\<close>
      components are skipped, \<^verbatim>\<open>..\<close> removes the last kept component (nothing at the root).\<close>
  "norm_step new_comps part =
     (if part = [] \<or> part = ''.'' then new_comps
      else if part = ''..'' then butlast new_comps
      else new_comps @ [part])"

definition abs_components :: "host \<Rightarrow> string \<Rightarrow> string list" where
  \<comment> \<open>The non-empty components of \<^verbatim>\<open>os.path.abspath(p)\<close> for an absolute \<open>p\<close>.\<close>
  "abs_components h p = foldl norm_step [] (split_on (is_sep h) p)"

definition lower_char :: "char \<Rightarrow> char" where
  "lower_char c =
     (let n = (of_char c :: nat) in if 65 \<le> n \<and> n \<le> 90 then char_of (n + 32) else c)"

definition normcase :: "host \<Rightarrow> string \<Rightarrow> string" where
  \<comment> \<open>\<^verbatim>\<open>os.path.normcase\<close> on one path component: the identity on POSIX, lower case on Windows.\<close>
  "normcase h part = (case h of Posix \<Rightarrow> part | Nt \<Rightarrow> map lower_char part)"

fun common_len :: "host \<Rightarrow> string list \<Rightarrow> string list \<Rightarrow> nat" where
  \<comment> \<open>The number of leading components on which two paths agree.\<close>
  "common_len h (x # xs) (y # ys) =
     (if normcase h x = normcase h y then Suc (common_len h xs ys) else 0)"
| "common_len h _ _ = 0"

definition os_path_relpath :: "host \<Rightarrow> string \<Rightarrow> string \<Rightarrow> exn + string" where
  \<comment> \<open>\<^verbatim>\<open>os.path.relpath(path, start)\<close> for absolute arguments.\<close>
  "os_path_relpath h path start =
     (if path = [] then Inl (ValueError ''no path specified'')
      else
        let start_list = abs_components h start;
            path_list = abs_components h path;
            i = common_len h start_list path_list;
            rel_list = replicate (length start_list - i) ''..'' @ drop i path_list
        in if rel_list = [] then Inr ''.''
           else Inr (foldl (os_path_join h) (hd rel_list) (tl rel_list)))"

definition nt_absolute :: "string \<Rightarrow> bool" where
  \<comment> \<open>A Windows path that can equal its own \<^verbatim>\<open>abspath\<close>: it starts with a drive and a
      separator, or with two separators (a UNC path).\<close>
  "nt_absolute p =
     (case p of
        a # b # c # _ \<Rightarrow> (b = CHR '':'' \<and> is_sep Nt c) \<or> (is_sep Nt a \<and> is_sep Nt b)
      | [a, b] \<Rightarrow> is_sep Nt a \<and> is_sep Nt b
      | _ \<Rightarrow> False)"

definition relative_path_to_artifact_path :: "host \<Rightarrow> string \<Rightarrow> exn + string" where
  \<comment> \<open>\<^verbatim>\<open>mlflow.utils.file_utils.relative_path_to_artifact_path\<close>: the identity when
      \<^verbatim>\<open>os.path\<close> is \<^verbatim>\<open>posixpath\<close>; on Windows an absolute path is refused and
      \<^verbatim>\<open>unquote(pathname2url(path))\<close> turns every backslash into a slash
      (\<^verbatim>\<open>pathname2url\<close> treats a path with a colon as one with a drive: refused here).\<close>
  "relative_path_to_artifact_path h path =
     (case h of
        Posix \<Rightarrow> Inr path
      | Nt \<Rightarrow>
          if nt_absolute path
          then Inl (OtherException ''This method only works with relative paths.'')
          else if CHR '':'' \<in> set path then Inl (OSError path)
          else Inr (map (\<lambda>c. if c = CHR 0x5C then CHR ''/'' else c) path))"

section \<open>The local file system and the directory walk\<close>

text \<open>
  A directory lists the names of its files and its subdirectories, in the order in which
  \<^verbatim>\<open>os.scandir\<close> returns them. \<^verbatim>\<open>os.walk(top)\<close> yields, top-down, one triple
  \<open>(dirpath, dirnames, filenames)\<close> per directory: first \<open>top\<close> itself, then the walk of each
  subdirectory at \<^verbatim>\<open>os.path.join(top, name)\<close>.
\<close>

datatype dir = Dir (dir_files: "string list") (dir_subdirs: "(string \<times> dir) list")

fun os_walk :: "host \<Rightarrow> string \<Rightarrow> dir \<Rightarrow> (string \<times> string list \<times> string list) list" where
  "os_walk h dirpath (Dir files subs) =
     (dirpath, map fst subs, files)
       # concat (map (\<lambda>nd. os_walk h (os_path_join h dirpath (fst nd)) (snd nd)) subs)"

section \<open>Requests, events and the environment\<close>

record host_creds =
  cred_host :: string
  cred_token :: string

datatype body =
    Str_data string
  | File_data string string
  \<comment> \<open>\<^verbatim>\<open>data=""\<close>, or \<^verbatim>\<open>data=f\<close> for the open file \<open>f\<close>: its path and the bytes it streams.\<close>

record request =
  rq_host_creds :: host_creds
  rq_endpoint :: string
  rq_method :: string
  rq_data :: body
  rq_allow_redirects :: bool

datatype event =
    Opened string
  | Requested request "exn + unit"
  \<comment> \<open>\<^verbatim>\<open>open(path, 'rb')\<close> succeeded; \<^verbatim>\<open>http_request_safe\<close> was called and returned or raised.\<close>

text \<open>
  The environment of a run: the host's path convention, the local file system seen
  through \<^verbatim>\<open>os.walk\<close>, \<^verbatim>\<open>os.stat\<close> and \<^verbatim>\<open>open\<close> (\<open>None\<close> where the call raises
  \<^verbatim>\<open>OSError\<close>; for the walk, where the directory cannot be listed), the credentials of
  a CLI profile (\<open>None\<close> where the profile is malformed), and the remote service behind
  \<^verbatim>\<open>http_request_safe\<close>, a transition on its own state \<open>'w\<close> that returns or raises.
\<close>

record 'w env =
  os_path :: host
  scandir :: "string \<Rightarrow> dir option"
  stat_size :: "string \<Rightarrow> nat option"
  open_rb :: "string \<Rightarrow> string option"
  get_databricks_host_creds :: "string \<Rightarrow> host_creds option"
  http_request_safe :: "request \<Rightarrow> 'w \<Rightarrow> (exn + unit) \<times> 'w"

type_synonym 'w state = "'w \<times> event list"

definition walk :: "'w env \<Rightarrow> string \<Rightarrow> (string \<times> string list \<times> string list) list" where
  \<comment> \<open>\<^verbatim>\<open>os.walk(top)\<close> with the default \<^verbatim>\<open>onerror=None\<close>: a top that cannot be listed
      (missing, or not a directory) yields nothing.\<close>
  "walk env local_dir =
     (case scandir env local_dir of None \<Rightarrow> [] | Some d \<Rightarrow> os_walk (os_path env) local_dir d)"

definition post :: "'w env \<Rightarrow> request \<Rightarrow> 'w state \<Rightarrow> (exn + unit) \<times> 'w state" where
  \<comment> \<open>One call of \<^verbatim>\<open>http_request_safe\<close>, recorded with its outcome.\<close>
  "post env rq s =
     (case http_request_safe env rq (fst s) of
        (r, w') \<Rightarrow> (r, (w', snd s @ [Requested rq r])))"

section \<open>Copying one artifact\<close>

definition upload :: "'w env \<Rightarrow> host_creds \<Rightarrow> string \<Rightarrow> string \<Rightarrow> 'w state \<Rightarrow> (exn + unit) \<times> 'w state" where
  \<comment> \<open>The body of the \<^verbatim>\<open>try\<close> block of \<^verbatim>\<open>_copy_artifact\<close>.\<close>
  "upload env creds http_endpoint local_file s =
     (case stat_size env local_file of
        None \<Rightarrow> (Inl (OSError local_file), s)
      | Some st_size \<Rightarrow>
          if st_size = 0
          then post env \<lparr>rq_host_creds = creds, rq_endpoint = http_endpoint, rq_method = ''POST'',
                          rq_data = Str_data [], rq_allow_redirects = False\<rparr> s
          else (case open_rb env local_file of
                  None \<Rightarrow> (Inl (OSError local_file), s)
                | Some f \<Rightarrow>
                    post env \<lparr>rq_host_creds = creds, rq_endpoint = http_endpoint, rq_method = ''POST'',
                               rq_data = File_data local_file f, rq_allow_redirects = False\<rparr>
                      (fst s, snd s @ [Opened local_file])))"

definition handler :: "exn \<Rightarrow> exn + unit" where
  \<comment> \<open>The \<^verbatim>\<open>except MlflowException as e\<close> clause. \<^verbatim>\<open>throw\<close> is not a name of Python or of
      the notebook, so evaluating \<^verbatim>\<open>throw(e)\<close> raises \<^verbatim>\<open>NameError\<close>. An exception of
      another class is not caught.\<close>
  "handler e =
     (case e of
        MlflowException m \<Rightarrow>
          if str_in ''File already exists'' m then Inr () else Inl (NameError ''throw'')
      | _ \<Rightarrow> Inl e)"

definition copy_artifact ::
  "'w env \<Rightarrow> string \<Rightarrow> string \<Rightarrow> string option \<Rightarrow> 'w state \<Rightarrow> (exn + unit) \<times> 'w state" where
  \<comment> \<open>\<^verbatim>\<open>_copy_artifact(local_file, artifact_uri, artifact_path=None)\<close>; \<^verbatim>\<open>if artifact_path\<close>
      holds for a non-empty string.\<close>
  "copy_artifact env local_file artifact_uri artifact_path s =
     (let basename = os_path_basename (os_path env) local_file;
          http_endpoint =
            (case artifact_path of
               Some p \<Rightarrow>
                 if p \<noteq> [] then get_dbfs_endpoint artifact_uri (posixpath_join p basename)
                 else get_dbfs_endpoint artifact_uri basename
             | None \<Rightarrow> get_dbfs_endpoint artifact_uri basename)
      in case get_databricks_host_creds env ''registry'' of
           None \<Rightarrow> (Inl (MlflowException ''Got malformed Databricks CLI profile''), s)
         | Some creds \<Rightarrow>
             (case upload env creds http_endpoint local_file s of
                (Inl e, s') \<Rightarrow> (handler e, s')
              | (Inr u, s') \<Rightarrow> (Inr (), s')))"

section \<open>Copying a directory tree\<close>

fun copy_files ::
  "'w env \<Rightarrow> string \<Rightarrow> string \<Rightarrow> string \<Rightarrow> string list \<Rightarrow> 'w state \<Rightarrow> (exn + unit) \<times> 'w state" where
  \<comment> \<open>The inner loop \<^verbatim>\<open>for name in filenames\<close>.\<close>
  "copy_files env artifact_uri artifact_subdir dirpath [] s = (Inr (), s)"
| "copy_files env artifact_uri artifact_subdir dirpath (name # names) s =
     (let file_path = os_path_join (os_path env) dirpath name
      in case copy_artifact env file_path artifact_uri (Some artifact_subdir) s of
           (Inl e, s') \<Rightarrow> (Inl e, s')
         | (Inr u, s') \<Rightarrow> copy_files env artifact_uri artifact_subdir dirpath names s')"

definition subdir_of :: "host \<Rightarrow> string \<Rightarrow> string \<Rightarrow> string \<Rightarrow> exn + string" where
  \<comment> \<open>\<^verbatim>\<open>artifact_subdir\<close> for one directory of the walk.\<close>
  "subdir_of h artifact_path local_dir dirpath =
     (if dirpath \<noteq> local_dir
      then (case os_path_relpath h dirpath local_dir of
              Inl e \<Rightarrow> Inl e
            | Inr rel_path \<Rightarrow>
                (case relative_path_to_artifact_path h rel_path of
                   Inl e \<Rightarrow> Inl e
                 | Inr rel_path' \<Rightarrow> Inr (posixpath_join artifact_path rel_path')))
      else Inr artifact_path)"

fun copy_dirs ::
  "'w env \<Rightarrow> string \<Rightarrow> string \<Rightarrow> string \<Rightarrow> (string \<times> string list \<times> string list) list
     \<Rightarrow> 'w state \<Rightarrow> (exn + unit) \<times> 'w state" where
  \<comment> \<open>The outer loop \<^verbatim>\<open>for (dirpath, _, filenames) in os.walk(local_dir)\<close>.\<close>
  "copy_dirs env artifact_uri artifact_path local_dir [] s = (Inr (), s)"
| "copy_dirs env artifact_uri artifact_path local_dir ((dirpath, dirnames, filenames) # rest) s =
     (case subdir_of (os_path env) artifact_path local_dir dirpath of
        Inl e \<Rightarrow> (Inl e, s)
      | Inr artifact_subdir \<Rightarrow>
          (case copy_files env artifact_uri artifact_subdir dirpath filenames s of
             (Inl e, s') \<Rightarrow> (Inl e, s')
           | (Inr u, s') \<Rightarrow> copy_dirs env artifact_uri artifact_path local_dir rest s'))"

definition local_dir_of :: "string \<Rightarrow> string \<Rightarrow> string" where
  \<comment> \<open>\<^verbatim>\<open>local_dir\<close>, line 120 of the notebook.\<close>
  "local_dir_of artifact_uri artifact_path =
     ''/dbfs/'' @ strip_prefix (rstrip artifact_uri (CHR ''/'')) ''dbfs:/''
       @ ''/'' @ strip_prefix artifact_path ''/''"

definition copy_artifacts ::
  "'w env \<Rightarrow> string \<Rightarrow> string option \<Rightarrow> 'w state \<Rightarrow> (exn + unit) \<times> 'w state" where
  \<comment> \<open>\<^verbatim>\<open>copy_artifacts(artifact_uri, artifact_path)\<close>. With \<^verbatim>\<open>artifact_path=None\<close>
      the first line already raises: \<^verbatim>\<open>strip_prefix\<close> calls \<^verbatim>\<open>None.startswith\<close>. For a
      string, \<^verbatim>\<open>artifact_path or ''\<close> is the string itself.\<close>
  "copy_artifacts env artifact_uri artifact_path s =
     (case artifact_path of
        None \<Rightarrow> (Inl (AttributeError ''startswith''), s)
      | Some p \<Rightarrow>
          (let local_dir = local_dir_of artifact_uri p
           in copy_dirs env artifact_uri p local_dir (walk env local_dir) s))"

section \<open>The files of a tree and their destinations\<close>

text \<open>
  The files of a tree, each with the chain of subdirectory names that leads to it from
  the root, in the order of the walk; and the endpoint a file is meant to reach: the
  endpoint of the artifact directory, then the chain and the basename, joined by slashes.
\<close>

fun tree_files :: "dir \<Rightarrow> (string list \<times> string) list" where
  "tree_files (Dir files subs) =
     map (Pair []) files
       @ concat (map (\<lambda>nd. map (\<lambda>cf. (fst nd # fst cf, snd cf)) (tree_files (snd nd))) subs)"

fun slash_join :: "string list \<Rightarrow> string" where
  "slash_join [] = []"
| "slash_join [x] = x"
| "slash_join (x # y # ys) = x @ ''/'' @ slash_join (y # ys)"

definition destination_endpoint :: "string \<Rightarrow> string \<Rightarrow> string list \<times> string \<Rightarrow> string" where
  "destination_endpoint artifact_uri artifact_path cf =
     (let root = get_dbfs_endpoint artifact_uri artifact_path
      in (if last root = CHR ''/'' then root else root @ ''/'') @ slash_join (fst cf @ [snd cf]))"

definition chain_path :: "host \<Rightarrow> string \<Rightarrow> string list \<Rightarrow> string" where
  \<comment> \<open>The \<open>dirpath\<close> the walk reaches from \<open>local_dir\<close> through a chain of subdirectories.\<close>
  "chain_path h local_dir chain = foldl (os_path_join h) local_dir chain"

definition local_path :: "host \<Rightarrow> string \<Rightarrow> string list \<times> string \<Rightarrow> string" where
  \<comment> \<open>The local path of a file of the tree: \<open>local_dir\<close>, the chain, then the basename.\<close>
  "local_path h local_dir cf = chain_path h local_dir (fst cf @ [snd cf])"

definition carries :: "'w env \<Rightarrow> request \<Rightarrow> string \<Rightarrow> bool" where
  \<comment> \<open>The request uploads the local file at \<open>p\<close>: the empty body for a file of size zero,
      the file opened at \<open>p\<close> for a file of another size.\<close>
  "carries env rq p =
     (case rq_data rq of
        Str_data s \<Rightarrow> s = [] \<and> stat_size env p = Some 0
      | File_data q f \<Rightarrow>
          q = p \<and> (case stat_size env p of None \<Rightarrow> False | Some n \<Rightarrow> n \<noteq> 0)
          \<and> open_rb env p = Some f)"

definition valid_name :: "host \<Rightarrow> string \<Rightarrow> bool" where
  \<comment> \<open>A name a directory entry can have on the host: not empty, not \<^verbatim>\<open>.\<close> or \<^verbatim>\<open>..\<close>,
      free of separators and, on Windows, of the colon.\<close>
  "valid_name h n =
     (n \<noteq> [] \<and> n \<noteq> ''.'' \<and> n \<noteq> ''..'' \<and> list_all (\<lambda>c. \<not> is_sep h c) n
      \<and> (h = Nt \<longrightarrow> CHR '':'' \<notin> set n))"

fun valid_tree :: "host \<Rightarrow> dir \<Rightarrow> bool" where
  "valid_tree h (Dir files subs) =
     ((\<forall>f \<in> set files. valid_name h f)
      \<and> (\<forall>nd \<in> set subs. valid_name h (fst nd) \<and> valid_tree h (snd nd)))"

fun requests :: "event list \<Rightarrow> request list" where
  \<comment> \<open>The upload requests of a trace, in the order in which they were sent.\<close>
  "requests [] = []"
| "requests (Requested rq r # evs) = rq # requests evs"
| "requests (Opened p # evs) = requests evs"

fun is_conflict :: "exn \<Rightarrow> bool" where
  \<comment> \<open>The remote service's "already exists" answer, as the handler recognises it.\<close>
  "is_conflict (MlflowException m) = str_in ''File already exists'' m"
| "is_conflict _ = False"

section \<open>What one call of the copy routine prepares\<close>

text \<open>
  Everything \<^verbatim>\<open>_copy_artifact\<close> does before it calls the remote service depends on the
  local environment only: the endpoint it computes, and the request it builds once the
  credentials, the size and (for a non-empty file) the open file are there.
\<close>

definition endpoint_for :: "host \<Rightarrow> string \<Rightarrow> string \<Rightarrow> string option \<Rightarrow> string" where
  "endpoint_for h local_file artifact_uri artifact_path =
     (case artifact_path of
        Some p \<Rightarrow>
          if p \<noteq> [] then get_dbfs_endpoint artifact_uri (posixpath_join p (os_path_basename h local_file))
          else get_dbfs_endpoint artifact_uri (os_path_basename h local_file)
      | None \<Rightarrow> get_dbfs_endpoint artifact_uri (os_path_basename h local_file))"

definition prepare ::
  "'w env \<Rightarrow> string \<Rightarrow> string \<Rightarrow> string option \<Rightarrow> (event list \<times> request) option" where
  "prepare env local_file artifact_uri artifact_path =
     (case get_databricks_host_creds env ''registry'' of
        None \<Rightarrow> None
      | Some creds \<Rightarrow>
          (case stat_size env local_file of
             None \<Rightarrow> None
           | Some st_size \<Rightarrow>
               if st_size = 0
               then Some ([], \<lparr>rq_host_creds = creds,
                                rq_endpoint = endpoint_for (os_path env) local_file artifact_uri artifact_path,
                                rq_method = ''POST'', rq_data = Str_data [],
                                rq_allow_redirects = False\<rparr>)
               else (case open_rb env local_file of
                       None \<Rightarrow> None
                     | Some f \<Rightarrow>
                         Some ([Opened local_file],
                               \<lparr>rq_host_creds = creds,
                                rq_endpoint = endpoint_for (os_path env) local_file artifact_uri artifact_path,
                                rq_method = ''POST'', rq_data = File_data local_file f,
                                rq_allow_redirects = False\<rparr>))))"

definition outcome :: "exn + unit \<Rightarrow> exn + unit" where
  \<comment> \<open>What \<^verbatim>\<open>_copy_artifact\<close> makes of the remote service's answer.\<close>
  "outcome res = (case res of Inl e \<Rightarrow> handler e | Inr u \<Rightarrow> Inr ())"

definition clean :: "event list \<Rightarrow> bool" where
  \<comment> \<open>No request of the trace was answered by an error other than "already exists".\<close>
  "clean tr = (\<forall>rq e. Requested rq (Inl e) \<in> set tr \<longrightarrow> is_conflict e)"

fun conflict_answer :: "event \<Rightarrow> bool" where
  "conflict_answer (Requested rq (Inl e)) = is_conflict e"
| "conflict_answer (Requested rq (Inr u)) = False"
| "conflict_answer (Opened p) = True"

definition create_or_conflict :: "'w env \<Rightarrow> ('w \<Rightarrow> string set) \<Rightarrow> bool" where
  \<comment> \<open>The contract of a remote store whose state \<open>w\<close> holds the objects at the endpoints
      \<open>objects w\<close>: objects are never lost; a request to a taken endpoint is answered by
      "already exists"; and after a request that returned, or was answered by
      "already exists", there is an object at its endpoint.\<close>
  "create_or_conflict env objects =
     (\<forall>rq w. case http_request_safe env rq w of
               (res, w') \<Rightarrow>
                 objects w \<subseteq> objects w'
                 \<and> (rq_endpoint rq \<in> objects w \<longrightarrow> (\<exists>e. res = Inl e \<and> is_conflict e))
                 \<and> ((case res of Inl e \<Rightarrow> is_conflict e | Inr u \<Rightarrow> True)
                      \<longrightarrow> rq_endpoint rq \<in> objects w'))"

definition replayable ::
  "'w env \<Rightarrow> ('w \<Rightarrow> string set) \<Rightarrow> ('w state \<Rightarrow> (exn + unit) \<times> 'w state) \<Rightarrow> event list \<Rightarrow> bool" where
  \<comment> \<open>A call that added the events \<open>new\<close> can be run again from every state that holds
      the objects of its requests: it returns normally, sends the same requests, and each
      is answered by "already exists".\<close>
  "replayable env objects run new =
     (\<forall>W TR. rq_endpoint ` set (requests new) \<subseteq> objects W \<longrightarrow>
        (\<exists>W' new'. run (W, TR) = (Inr (), (W', TR @ new')) \<and> objects W \<subseteq> objects W'
            \<and> list_all conflict_answer new' \<and> requests new' = requests new))"

definition dir_paths :: "host \<Rightarrow> string \<times> string list \<times> string list \<Rightarrow> string list" where
  \<comment> \<open>The \<open>file_path\<close> of each file of one triple of the walk.\<close>
  "dir_paths h triple = map (os_path_join h (fst triple)) (snd (snd triple))"

definition dir_endpoints ::
  "host \<Rightarrow> string \<Rightarrow> string \<Rightarrow> string \<Rightarrow> string \<times> string list \<times> string list \<Rightarrow> string list" where
  \<comment> \<open>The endpoints computed for the files of one triple of the walk.\<close>
  "dir_endpoints h artifact_uri artifact_path local_dir triple =
     (case subdir_of h artifact_path local_dir (fst triple) of
        Inl e \<Rightarrow> []
      | Inr artifact_subdir \<Rightarrow>
          map (\<lambda>name. endpoint_for h (os_path_join h (fst triple) name) artifact_uri (Some artifact_subdir))
            (snd (snd triple)))"

section \<open>A sample environment\<close>

text \<open>
  A run directory holding \<^verbatim>\<open>model/MLmodel\<close> (seven bytes) and the empty file
  \<^verbatim>\<open>model/data/model.h5\<close>; a remote store that creates an object at a fresh endpoint and
  answers "File already exists" at a taken one; and a remote that refuses every request.
\<close>

definition model_tree :: dir where
  "model_tree = Dir [''MLmodel''] [(''data'', Dir [''model.h5''] [])]"

definition registry_creds :: host_creds where
  "registry_creds = \<lparr>cred_host = ''https://registry.example.com'', cred_token = ''t0ken''\<rparr>"

definition dbfs_store :: "request \<Rightarrow> string list \<Rightarrow> (exn + unit) \<times> string list" where
  "dbfs_store rq objects =
     (if rq_endpoint rq \<in> set objects
      then (Inl (MlflowException ''RESOURCE_ALREADY_EXISTS: File already exists''), objects)
      else (Inr (), objects @ [rq_endpoint rq]))"

definition forbidden :: "request \<Rightarrow> string list \<Rightarrow> (exn + unit) \<times> string list" where
  "forbidden rq objects = (Inl (MlflowException ''PERMISSION_DENIED''), objects)"

definition sample_env ::
  "host \<Rightarrow> (string \<Rightarrow> dir option) \<Rightarrow> (request \<Rightarrow> string list \<Rightarrow> (exn + unit) \<times> string list)
     \<Rightarrow> string list env" where
  "sample_env h listing remote =
     \<lparr>os_path = h,
      scandir = listing,
      stat_size = (\<lambda>p. if os_path_basename h p = ''model.h5'' then Some 0 else Some 7),
      open_rb = (\<lambda>p. Some ''flavors''),
      get_databricks_host_creds = (\<lambda>profile. if profile = ''registry'' then Some registry_creds else None),
      http_request_safe = remote\<rparr>"

definition run_dir :: "string \<Rightarrow> dir option" where
  "run_dir p = (if p = ''/dbfs/run123/model'' then Some model_tree else None)"

definition no_dir :: "string \<Rightarrow> dir option" where
  \<comment> \<open>A file system on which no directory can be listed.\<close>
  "no_dir p = None"

definition hollow_tree :: dir where
  \<comment> \<open>A directory without files: only an empty subdirectory.\<close>
  "hollow_tree = Dir [] [(''data'', Dir [] [])]"

definition hollow_dir :: "string \<Rightarrow> dir option" where
  "hollow_dir p = (if p = ''/dbfs/run123/model'' then Some hollow_tree else None)"

definition request_MLmodel :: request where
  "request_MLmodel =
     \<lparr>rq_host_creds = registry_creds, rq_endpoint = ''/dbfs/run123/model/MLmodel'',
      rq_method = ''POST'', rq_data = File_data ''/dbfs/run123/model/MLmodel'' ''flavors'',
      rq_allow_redirects = False\<rparr>"

definition request_h5 :: request where
  "request_h5 =
     \<lparr>rq_host_creds = registry_creds, rq_endpoint = ''/dbfs/run123/model/data/model.h5'',
      rq_method = ''POST'', rq_data = Str_data [], rq_allow_redirects = False\<rparr>"

definition already_exists :: exn where
  "already_exists = MlflowException ''RESOURCE_ALREADY_EXISTS: File already exists''"

definition sample_objects :: "string list" where
  "sample_objects = [''/dbfs/run123/model/MLmodel'', ''/dbfs/run123/model/data/model.h5'']"

section \<open>Properties of the string operations\<close>

lemma dropWhile_replicate_append: "dropWhile (\<lambda>x. x = c) (replicate n c @ xs) = dropWhile (\<lambda>x. x = c) xs"
  by (induction n) simp_all

lemma rstrip_append_replicate: "rstrip (s @ replicate n c) c = rstrip s c"
  by (simp add: rstrip_def dropWhile_replicate_append)

lemma strip_prefix_slash_Cons:
  "\<not> startswith p ''/'' \<Longrightarrow> strip_prefix (CHR ''/'' # p) ''/'' = strip_prefix p ''/''"
  by (simp add: strip_prefix_def startswith_def)

text \<open>
  C10. The endpoint does not depend on redundant slashes: any number of trailing
  \<open>/\<close> on the artifact URI, and one leading \<open>/\<close> in front of an artifact path that has
  none, leave the endpoint unchanged.
\<close>

theorem get_dbfs_endpoint_slash_normalised:
  assumes "\<not> startswith artifact_path ''/''"
  shows "get_dbfs_endpoint (artifact_uri @ replicate n (CHR ''/'')) artifact_path
           = get_dbfs_endpoint artifact_uri artifact_path
       \<and> get_dbfs_endpoint artifact_uri (CHR ''/'' # artifact_path)
           = get_dbfs_endpoint artifact_uri artifact_path
       \<and> get_dbfs_endpoint (artifact_uri @ replicate n (CHR ''/'')) (CHR ''/'' # artifact_path)
           = get_dbfs_endpoint artifact_uri artifact_path"
  using assms
  by (simp add: get_dbfs_endpoint_def rstrip_append_replicate strip_prefix_slash_Cons)

theorem get_dbfs_endpoint_slash_normalised_witness:
  "\<not> startswith ''model'' ''/''
   \<and> get_dbfs_endpoint (''dbfs:/run'' @ replicate 2 (CHR ''/'')) ''model'' = ''/dbfs/run/model''
   \<and> get_dbfs_endpoint ''dbfs:/run'' (CHR ''/'' # ''model'') = ''/dbfs/run/model''
   \<and> get_dbfs_endpoint (''dbfs:/run'' @ replicate 2 (CHR ''/'')) (CHR ''/'' # ''model'')
        = ''/dbfs/run/model''"
proof -
  have h: "\<not> startswith ''model'' ''/''" by (simp add: startswith_def)
  have e: "get_dbfs_endpoint ''dbfs:/run'' ''model'' = ''/dbfs/run/model''"
    by (simp add: get_dbfs_endpoint_def strip_prefix_def startswith_def rstrip_def)
  show ?thesis
    using h e get_dbfs_endpoint_slash_normalised [OF h, of "''dbfs:/run''" 2] by simp
qed

section \<open>One call of the copy routine\<close>

lemma requests_append: "requests (a @ b) = requests a @ requests b"
  by (induction a rule: requests.induct) simp_all

lemma copy_artifact_unprepared:
  assumes "prepare env f uri ap = None"
  shows "\<exists>e. copy_artifact env f uri ap s = (Inl e, s)"
  using assms
  by (auto simp: prepare_def copy_artifact_def upload_def handler_def Let_def
           split: option.splits if_splits)

lemma copy_artifact_prepared:
  assumes "prepare env f uri ap = Some (pre, rq)"
  shows "copy_artifact env f uri ap (w, tr) =
           (outcome (fst (http_request_safe env rq w)),
            (snd (http_request_safe env rq w),
             tr @ pre @ [Requested rq (fst (http_request_safe env rq w))]))"
  using assms
  by (auto simp: prepare_def copy_artifact_def upload_def post_def outcome_def endpoint_for_def Let_def
           split: option.splits if_splits prod.splits sum.splits)

lemma prepare_shape:
  assumes "prepare env f uri ap = Some (pre, rq)"
  shows "(pre = [] \<or> pre = [Opened f]) \<and> \<not> rq_allow_redirects rq
         \<and> rq_endpoint rq = endpoint_for (os_path env) f uri ap"
  using assms by (auto simp: prepare_def split: option.splits if_splits)

lemma outcome_cases:
  "outcome res = Inr () \<longleftrightarrow> (res = Inr () \<or> (\<exists>e. res = Inl e \<and> is_conflict e))"
  by (cases res) (auto simp: outcome_def handler_def split: exn.splits)

text \<open>What a call adds to the trace: the earlier events stay, and no new request follows redirects.\<close>

lemma copy_artifact_extends:
  assumes "copy_artifact env f uri ap (w, tr) = (r, (w', tr'))"
  shows "\<exists>new. tr' = tr @ new \<and> (\<forall>rq \<in> set (requests new). \<not> rq_allow_redirects rq)"
proof (cases "prepare env f uri ap")
  case None
  from copy_artifact_unprepared [OF None, of "(w, tr)"] assms show ?thesis by auto
next
  case (Some a)
  obtain pre rq where a: "a = (pre, rq)" by (cases a)
  from prepare_shape [OF Some [unfolded a]] copy_artifact_prepared [OF Some [unfolded a], of w tr] assms
  show ?thesis by (auto simp: requests_append)
qed

lemma copy_files_extends:
  assumes "copy_files env uri sub dirpath names (w, tr) = (r, (w', tr'))"
  shows "\<exists>new. tr' = tr @ new \<and> (\<forall>rq \<in> set (requests new). \<not> rq_allow_redirects rq)"
  using assms
proof (induction names arbitrary: w tr)
  case Nil
  then show ?case by simp
next
  case (Cons name names)
  obtain r1 w1 tr1 where one:
    "copy_artifact env (os_path_join (os_path env) dirpath name) uri (Some sub) (w, tr) = (r1, (w1, tr1))"
    by (metis surj_pair)
  from copy_artifact_extends [OF one] obtain new1 where
    n1: "tr1 = tr @ new1" "\<forall>rq \<in> set (requests new1). \<not> rq_allow_redirects rq" by blast
  show ?case
  proof (cases r1)
    case (Inl e)
    with Cons.prems one n1 show ?thesis by (auto simp: Let_def)
  next
    case (Inr u)
    with Cons.prems one have "copy_files env uri sub dirpath names (w1, tr1) = (r, (w', tr'))"
      by (simp add: Let_def)
    from Cons.IH [OF this] obtain new2 where
      "tr' = tr1 @ new2" "\<forall>rq \<in> set (requests new2). \<not> rq_allow_redirects rq" by blast
    with n1 have "tr' = tr @ (new1 @ new2) \<and> (\<forall>rq \<in> set (requests (new1 @ new2)). \<not> rq_allow_redirects rq)"
      by (auto simp: requests_append)
    then show ?thesis by blast
  qed
qed

lemma copy_dirs_extends:
  assumes "copy_dirs env uri ap local_dir triples (w, tr) = (r, (w', tr'))"
  shows "\<exists>new. tr' = tr @ new \<and> (\<forall>rq \<in> set (requests new). \<not> rq_allow_redirects rq)"
  using assms
proof (induction triples arbitrary: w tr)
  case Nil
  then show ?case by simp
next
  case (Cons t triples)
  obtain dirpath dirnames filenames where t: "t = (dirpath, dirnames, filenames)" by (cases t)
  show ?case
  proof (cases "subdir_of (os_path env) ap local_dir dirpath")
    case (Inl e)
    with Cons.prems t show ?thesis by simp
  next
    case (Inr sub)
    obtain r1 w1 tr1 where one:
      "copy_files env uri sub dirpath filenames (w, tr) = (r1, (w1, tr1))"
      by (metis surj_pair)
    from copy_files_extends [OF one] obtain new1 where
      n1: "tr1 = tr @ new1" "\<forall>rq \<in> set (requests new1). \<not> rq_allow_redirects rq" by blast
    show ?thesis
    proof (cases r1)
      case (Inl e)
      with Cons.prems one n1 t Inr show ?thesis by auto
    next
      case r1: (Inr u)
      with Cons.prems one t Inr
      have "copy_dirs env uri ap local_dir triples (w1, tr1) = (r, (w', tr'))" by simp
      from Cons.IH [OF this] obtain new2 where
        "tr' = tr1 @ new2" "\<forall>rq \<in> set (requests new2). \<not> rq_allow_redirects rq" by blast
      with n1 have "tr' = tr @ (new1 @ new2) \<and> (\<forall>rq \<in> set (requests (new1 @ new2)). \<not> rq_allow_redirects rq)"
        by (auto simp: requests_append)
      then show ?thesis by blast
    qed
  qed
qed

lemma copy_artifacts_Some:
  "copy_artifacts env uri (Some p) s
     = copy_dirs env uri p (local_dir_of uri p) (walk env (local_dir_of uri p)) s"
  by (simp add: copy_artifacts_def Let_def)


text \<open>
  C8. Every upload request disables redirect-following: each request that one call of
  \<^verbatim>\<open>_copy_artifact\<close> sends, on the empty-body path and on the streamed path, and so
  each request of a whole run of \<^verbatim>\<open>copy_artifacts\<close>, has \<^verbatim>\<open>allow_redirects=False\<close>.
\<close>

theorem uploads_never_follow_redirects:
  "(copy_artifact env local_file artifact_uri subdir (w1, []) = (r1, (w1', tr1))
      \<longrightarrow> (\<forall>rq \<in> set (requests tr1). rq_allow_redirects rq = False))
   \<and> (copy_artifacts env artifact_uri artifact_path (w2, []) = (r2, (w2', tr2))
      \<longrightarrow> (\<forall>rq \<in> set (requests tr2). rq_allow_redirects rq = False))"
proof (intro conjI impI)
  assume "copy_artifact env local_file artifact_uri subdir (w1, []) = (r1, (w1', tr1))"
  from copy_artifact_extends [OF this]
  show "\<forall>rq \<in> set (requests tr1). rq_allow_redirects rq = False"
    by auto
next
  assume run: "copy_artifacts env artifact_uri artifact_path (w2, []) = (r2, (w2', tr2))"
  show "\<forall>rq \<in> set (requests tr2). rq_allow_redirects rq = False"
  proof (cases artifact_path)
    case None
    with run show ?thesis by (simp add: copy_artifacts_def)
  next
    case (Some p)
    with run have "copy_dirs env artifact_uri p (local_dir_of artifact_uri p)
                     (walk env (local_dir_of artifact_uri p)) (w2, []) = (r2, (w2', tr2))"
      by (simp add: copy_artifacts_Some)
    from copy_dirs_extends [OF this] show ?thesis by auto
  qed
qed

section \<open>Runs of the sample environment\<close>

lemma sample_copy_MLmodel:
  "copy_artifact (sample_env Posix run_dir dbfs_store) ''/dbfs/run123/model/MLmodel'' ''dbfs:/run123/''
     (Some ''model'') ([], [])
   = (Inr (), ([''/dbfs/run123/model/MLmodel''],
        [Opened ''/dbfs/run123/model/MLmodel'', Requested request_MLmodel (Inr ())]))"
  by code_simp

lemma sample_first_run:
  "copy_artifacts (sample_env Posix run_dir dbfs_store) ''dbfs:/run123/'' (Some ''model'') ([], [])
   = (Inr (), (sample_objects,
       [Opened ''/dbfs/run123/model/MLmodel'', Requested request_MLmodel (Inr ()),
        Requested request_h5 (Inr ())]))"
  by code_simp

theorem uploads_never_follow_redirects_witness:
  "copy_artifact (sample_env Posix run_dir dbfs_store) ''/dbfs/run123/model/MLmodel'' ''dbfs:/run123/''
     (Some ''model'') ([], [])
   = (Inr (), ([''/dbfs/run123/model/MLmodel''],
        [Opened ''/dbfs/run123/model/MLmodel'', Requested request_MLmodel (Inr ())]))
   \<and> rq_allow_redirects request_MLmodel = False
   \<and> copy_artifacts (sample_env Posix run_dir dbfs_store) ''dbfs:/run123/'' (Some ''model'') ([], [])
   = (Inr (), (sample_objects,
       [Opened ''/dbfs/run123/model/MLmodel'', Requested request_MLmodel (Inr ()),
        Requested request_h5 (Inr ())]))
   \<and> map rq_allow_redirects [request_MLmodel, request_h5] = [False, False]"
  using sample_copy_MLmodel sample_first_run
    uploads_never_follow_redirects [of "sample_env Posix run_dir dbfs_store"
      "''/dbfs/run123/model/MLmodel''" "''dbfs:/run123/''" "Some ''model''" "[]" "Inr ()"
      "[''/dbfs/run123/model/MLmodel'']"
      "[Opened ''/dbfs/run123/model/MLmodel'', Requested request_MLmodel (Inr ())]"
      "Some ''model''" "[]" "Inr ()" sample_objects
      "[Opened ''/dbfs/run123/model/MLmodel'', Requested request_MLmodel (Inr ()),
        Requested request_h5 (Inr ())]"]
  by simp

section \<open>Empty and non-empty files\<close>

text \<open>
  C6. A file of size zero is uploaded with the empty string as body and is never opened:
  the request is the only event. A file of another size is opened, and the request
  carries the open file.
\<close>

theorem body_follows_size:
  assumes "get_databricks_host_creds env ''registry'' = Some creds"
      and "stat_size env local_file = Some st_size"
      and "st_size = 0 \<or> open_rb env local_file = Some f"
  shows "\<exists>rq res.
           snd (snd (copy_artifact env local_file artifact_uri subdir (w, [])))
             = (if st_size = 0 then [Requested rq res] else [Opened local_file, Requested rq res])
           \<and> rq_data rq = (if st_size = 0 then Str_data [] else File_data local_file f)"
proof (cases "st_size = 0")
  case True
  let ?rq = "\<lparr>rq_host_creds = creds,
              rq_endpoint = endpoint_for (os_path env) local_file artifact_uri subdir,
              rq_method = ''POST'', rq_data = Str_data [], rq_allow_redirects = False\<rparr>"
  from True assms(1,2) have p: "prepare env local_file artifact_uri subdir = Some ([], ?rq)"
    by (simp add: prepare_def)
  have "snd (snd (copy_artifact env local_file artifact_uri subdir (w, [])))
          = [Requested ?rq (fst (http_request_safe env ?rq w))]"
    by (simp add: copy_artifact_prepared [OF p])
  with True show ?thesis by (intro exI [of _ ?rq] exI [of _ "fst (http_request_safe env ?rq w)"]) simp
next
  case False
  let ?rq = "\<lparr>rq_host_creds = creds,
              rq_endpoint = endpoint_for (os_path env) local_file artifact_uri subdir,
              rq_method = ''POST'', rq_data = File_data local_file f, rq_allow_redirects = False\<rparr>"
  from False assms have p:
    "prepare env local_file artifact_uri subdir = Some ([Opened local_file], ?rq)"
    by (simp add: prepare_def)
  have "snd (snd (copy_artifact env local_file artifact_uri subdir (w, [])))
          = [Opened local_file, Requested ?rq (fst (http_request_safe env ?rq w))]"
    by (simp add: copy_artifact_prepared [OF p])
  with False show ?thesis by (intro exI [of _ ?rq] exI [of _ "fst (http_request_safe env ?rq w)"]) simp
qed

lemma sample_copy_h5:
  "copy_artifact (sample_env Posix run_dir dbfs_store) ''/dbfs/run123/model/data/model.h5''
     ''dbfs:/run123/'' (Some ''model/data'') ([], [])
   = (Inr (), ([''/dbfs/run123/model/data/model.h5''], [Requested request_h5 (Inr ())]))"
  by code_simp

theorem body_follows_size_witness:
  "stat_size (sample_env Posix run_dir dbfs_store) ''/dbfs/run123/model/data/model.h5'' = Some 0
   \<and> snd (snd (copy_artifact (sample_env Posix run_dir dbfs_store) ''/dbfs/run123/model/data/model.h5''
         ''dbfs:/run123/'' (Some ''model/data'') ([], [])))
       = [Requested request_h5 (Inr ())]
   \<and> rq_data request_h5 = Str_data []
   \<and> stat_size (sample_env Posix run_dir dbfs_store) ''/dbfs/run123/model/MLmodel'' = Some 7
   \<and> snd (snd (copy_artifact (sample_env Posix run_dir dbfs_store) ''/dbfs/run123/model/MLmodel''
         ''dbfs:/run123/'' (Some ''model'') ([], [])))
       = [Opened ''/dbfs/run123/model/MLmodel'', Requested request_MLmodel (Inr ())]
   \<and> rq_data request_MLmodel = File_data ''/dbfs/run123/model/MLmodel'' ''flavors''"
proof -
  let ?env = "sample_env Posix run_dir dbfs_store"
  have c: "get_databricks_host_creds ?env ''registry'' = Some registry_creds"
    by (simp add: sample_env_def)
  have s0: "stat_size ?env ''/dbfs/run123/model/data/model.h5'' = Some 0"
    by (simp add: sample_env_def os_path_basename_def is_sep_def)
  have s7: "stat_size ?env ''/dbfs/run123/model/MLmodel'' = Some 7"
    by (simp add: sample_env_def os_path_basename_def is_sep_def)
  have o: "open_rb ?env ''/dbfs/run123/model/MLmodel'' = Some ''flavors''"
    by (simp add: sample_env_def)
  from body_follows_size [OF c s0, of "''flavors''" "''dbfs:/run123/''" "Some ''model/data''" "[]"]
  have "rq_data request_h5 = Str_data []"
    by (auto simp: sample_copy_h5)
  moreover
  from body_follows_size [OF c s7, of "''flavors''" "''dbfs:/run123/''" "Some ''model''" "[]"] o
  have "rq_data request_MLmodel = File_data ''/dbfs/run123/model/MLmodel'' ''flavors''"
    by (auto simp: sample_copy_MLmodel)
  ultimately show ?thesis
    using s0 s7 by (simp add: sample_copy_h5 sample_copy_MLmodel)
qed

section \<open>Answers of the remote service\<close>

text \<open>
  C3. When the remote service answers a file's request with "File already exists", the
  exception is swallowed: \<^verbatim>\<open>_copy_artifact\<close> returns normally, and the loop over the
  file names goes on with the next name, from the state the call left.
\<close>

theorem conflict_is_swallowed:
  assumes "copy_artifact env (os_path_join (os_path env) dirpath name) artifact_uri (Some artifact_subdir)
             (w, tr) = (r, (w', tr'))"
      and "tr' = tr @ evs @ [Requested rq (Inl e)]"
      and "is_conflict e"
  shows "r = Inr ()
       \<and> copy_files env artifact_uri artifact_subdir dirpath (name # names) (w, tr)
           = copy_files env artifact_uri artifact_subdir dirpath names (w', tr')"
proof -
  let ?f = "os_path_join (os_path env) dirpath name"
  have "r = Inr ()"
  proof (cases "prepare env ?f artifact_uri (Some artifact_subdir)")
    case None
    from copy_artifact_unprepared [OF None, of "(w, tr)"] assms(1,2) show ?thesis by auto
  next
    case (Some a)
    obtain pre rq0 where a: "a = (pre, rq0)" by (cases a)
    from copy_artifact_prepared [OF Some [unfolded a], of w tr] assms(1,2)
    have "r = outcome (Inl e)" by auto
    with assms(3) show ?thesis by (simp add: outcome_cases)
  qed
  with assms(1) show ?thesis by (simp add: Let_def)
qed

lemma sample_conflict_MLmodel:
  "copy_artifact (sample_env Posix run_dir dbfs_store)
     (os_path_join (os_path (sample_env Posix run_dir dbfs_store)) ''/dbfs/run123/model'' ''MLmodel'')
     ''dbfs:/run123/'' (Some ''model'') (sample_objects, [])
   = (Inr (), (sample_objects,
        [] @ [Opened ''/dbfs/run123/model/MLmodel''] @ [Requested request_MLmodel (Inl already_exists)]))"
  by code_simp

lemma already_exists_conflict: "is_conflict already_exists"
  by code_simp

theorem conflict_is_swallowed_witness:
  "is_conflict already_exists
   \<and> copy_artifact (sample_env Posix run_dir dbfs_store) ''/dbfs/run123/model/MLmodel''
       ''dbfs:/run123/'' (Some ''model'') (sample_objects, [])
     = (Inr (), (sample_objects,
          [Opened ''/dbfs/run123/model/MLmodel'', Requested request_MLmodel (Inl already_exists)]))
   \<and> copy_files (sample_env Posix run_dir dbfs_store) ''dbfs:/run123/'' ''model''
       ''/dbfs/run123/model'' [''MLmodel''] (sample_objects, [])
     = (Inr (), (sample_objects,
          [Opened ''/dbfs/run123/model/MLmodel'', Requested request_MLmodel (Inl already_exists)]))"
proof -
  have j: "os_path_join (os_path (sample_env Posix run_dir dbfs_store)) ''/dbfs/run123/model'' ''MLmodel''
             = ''/dbfs/run123/model/MLmodel''"
    by code_simp
  from conflict_is_swallowed [OF sample_conflict_MLmodel refl already_exists_conflict, of "[]"]
       sample_conflict_MLmodel already_exists_conflict
  show ?thesis by (simp add: j)
qed

text \<open>
  After a call from a clean trace, only the last event can be a request answered by an
  error other than "already exists", and then the call has raised.
\<close>

lemma clean_append: "clean (a @ b) \<longleftrightarrow> clean a \<and> clean b"
  by (auto simp: clean_def)

lemma clean_single:
  "clean [Opened p]" "clean []"
  "clean [Requested rq res] \<longleftrightarrow> (case res of Inl e \<Rightarrow> is_conflict e | Inr u \<Rightarrow> True)"
  by (auto simp: clean_def split: sum.splits)

lemma copy_artifact_aborts:
  assumes "copy_artifact env f uri ap (w, tr) = (r, (w', tr'))" and "clean tr"
  shows "clean (butlast tr') \<and> (r = Inr () \<longrightarrow> clean tr')"
proof (cases "prepare env f uri ap")
  case None
  from copy_artifact_unprepared [OF None, of "(w, tr)"] assms show ?thesis
    by (auto simp: clean_def dest: in_set_butlastD)
next
  case (Some a)
  obtain pre rq where a: "a = (pre, rq)" by (cases a)
  let ?res = "fst (http_request_safe env rq w)"
  from copy_artifact_prepared [OF Some [unfolded a], of w tr] assms(1)
  have tr': "tr' = tr @ pre @ [Requested rq ?res]" and r: "r = outcome ?res" by auto
  from prepare_shape [OF Some [unfolded a]] have "clean pre" by (auto simp: clean_single)
  with assms(2) have "clean (butlast tr')"
    by (simp add: tr' butlast_append clean_append)
  moreover have "r = Inr () \<longrightarrow> clean tr'"
    using assms(2) \<open>clean pre\<close>
    by (auto simp: tr' r clean_append clean_single outcome_cases split: sum.splits)
  ultimately show ?thesis by blast
qed

lemma copy_files_aborts:
  assumes "copy_files env uri sub dirpath names (w, tr) = (r, (w', tr'))" and "clean tr"
  shows "clean (butlast tr') \<and> (r = Inr () \<longrightarrow> clean tr')"
  using assms
proof (induction names arbitrary: w tr)
  case Nil
  then show ?case by (auto simp: clean_def dest: in_set_butlastD)
next
  case (Cons name names)
  obtain r1 w1 tr1 where one:
    "copy_artifact env (os_path_join (os_path env) dirpath name) uri (Some sub) (w, tr) = (r1, (w1, tr1))"
    by (metis surj_pair)
  note a = copy_artifact_aborts [OF one Cons.prems(2)]
  show ?case
  proof (cases r1)
    case (Inl e)
    with Cons.prems(1) one a show ?thesis by (auto simp: Let_def)
  next
    case (Inr u)
    with Cons.prems(1) one have rest: "copy_files env uri sub dirpath names (w1, tr1) = (r, (w', tr'))"
      by (simp add: Let_def)
    from Inr a have "clean tr1" by simp
    from Cons.IH [OF rest this] show ?thesis .
  qed
qed

lemma copy_dirs_aborts:
  assumes "copy_dirs env uri ap local_dir triples (w, tr) = (r, (w', tr'))" and "clean tr"
  shows "clean (butlast tr') \<and> (r = Inr () \<longrightarrow> clean tr')"
  using assms
proof (induction triples arbitrary: w tr)
  case Nil
  then show ?case by (auto simp: clean_def dest: in_set_butlastD)
next
  case (Cons t triples)
  obtain dirpath dirnames filenames where t: "t = (dirpath, dirnames, filenames)" by (cases t)
  show ?case
  proof (cases "subdir_of (os_path env) ap local_dir dirpath")
    case (Inl e)
    with Cons.prems t show ?thesis by (auto simp: clean_def dest: in_set_butlastD)
  next
    case (Inr sub)
    obtain r1 w1 tr1 where one:
      "copy_files env uri sub dirpath filenames (w, tr) = (r1, (w1, tr1))"
      by (metis surj_pair)
    note a = copy_files_aborts [OF one Cons.prems(2)]
    show ?thesis
    proof (cases r1)
      case (Inl e)
      with Cons.prems(1) one a t Inr show ?thesis by auto
    next
      case r1: (Inr u)
      with Cons.prems(1) one t Inr
      have rest: "copy_dirs env uri ap local_dir triples (w1, tr1) = (r, (w', tr'))" by simp
      from r1 a have "clean tr1" by simp
      from Cons.IH [OF rest this] show ?thesis .
    qed
  qed
qed

text \<open>
  C4. When the remote service answers some file's request with an error other than
  "already exists", the run aborts at that file: the failing request is the last event of
  the run (no later file is opened or uploaded) and \<^verbatim>\<open>copy_artifacts\<close> raises.
\<close>

theorem remote_failure_aborts_run:
  assumes "copy_artifacts env artifact_uri artifact_path (w, []) = (r, (w', tr))"
      and "tr = before @ Requested rq (Inl e) # after"
      and "\<not> is_conflict e"
  shows "after = [] \<and> (\<exists>e'. r = Inl e')"
proof -
  have inv: "clean (butlast tr) \<and> (r = Inr () \<longrightarrow> clean tr)"
  proof (cases artifact_path)
    case None
    with assms(1) show ?thesis by (auto simp: copy_artifacts_def clean_def)
  next
    case (Some p)
    with assms(1) have "copy_dirs env artifact_uri p (local_dir_of artifact_uri p)
                     (walk env (local_dir_of artifact_uri p)) (w, []) = (r, (w', tr))"
      by (simp add: copy_artifacts_Some)
    from copy_dirs_aborts [OF this] show ?thesis by (simp add: clean_def)
  qed
  have "\<not> clean tr" using assms(2,3) by (auto simp: clean_def)
  with inv have raised: "\<exists>e'. r = Inl e'" by (cases r) auto
  have "after = []"
  proof (rule ccontr)
    assume "after \<noteq> []"
    then have "butlast tr = before @ Requested rq (Inl e) # butlast after"
      by (simp add: assms(2) butlast_append)
    with inv assms(3) show False by (auto simp: clean_def)
  qed
  with raised show ?thesis by blast
qed

lemma sample_forbidden_run:
  "copy_artifacts (sample_env Posix run_dir forbidden) ''dbfs:/run123/'' (Some ''model'') ([], [])
   = (Inl (NameError ''throw''), ([],
       [Opened ''/dbfs/run123/model/MLmodel'']
         @ Requested request_MLmodel (Inl (MlflowException ''PERMISSION_DENIED'')) # []))"
  by code_simp

lemma permission_denied_no_conflict: "\<not> is_conflict (MlflowException ''PERMISSION_DENIED'')"
  by code_simp

theorem remote_failure_aborts_run_witness:
  "\<not> is_conflict (MlflowException ''PERMISSION_DENIED'')
   \<and> snd (snd (copy_artifacts (sample_env Posix run_dir forbidden) ''dbfs:/run123/'' (Some ''model'') ([], [])))
       = [Opened ''/dbfs/run123/model/MLmodel'',
          Requested request_MLmodel (Inl (MlflowException ''PERMISSION_DENIED''))]
   \<and> fst (copy_artifacts (sample_env Posix run_dir forbidden) ''dbfs:/run123/'' (Some ''model'') ([], []))
       = Inl (NameError ''throw'')"
  using remote_failure_aborts_run [OF sample_forbidden_run refl permission_denied_no_conflict]
    permission_denied_no_conflict
  by (simp add: sample_forbidden_run)

text \<open>
  C5. A remote error other than "already exists" is meant to reach the caller unchanged.
  The handler calls \<^verbatim>\<open>throw(e)\<close>, and \<^verbatim>\<open>throw\<close> is not defined: against a remote that
  refuses every request with \<^verbatim>\<open>PERMISSION_DENIED\<close>, the run raises \<^verbatim>\<open>NameError\<close> for the
  name \<^verbatim>\<open>throw\<close>, not the exception the remote call raised.
\<close>

theorem rethrow_raises_NameError:
  "requests (snd (snd (copy_artifacts (sample_env Posix run_dir forbidden) ''dbfs:/run123/''
      (Some ''model'') ([], [])))) = [request_MLmodel]
   \<and> http_request_safe (sample_env Posix run_dir forbidden) request_MLmodel []
       = (Inl (MlflowException ''PERMISSION_DENIED''), [])
   \<and> fst (copy_artifacts (sample_env Posix run_dir forbidden) ''dbfs:/run123/'' (Some ''model'') ([], []))
       = Inl (NameError ''throw'')
   \<and> NameError ''throw'' \<noteq> MlflowException ''PERMISSION_DENIED''"
proof -
  have "http_request_safe (sample_env Posix run_dir forbidden) = forbidden"
    by (simp add: sample_env_def)
  then show ?thesis by (simp add: sample_forbidden_run forbidden_def)
qed

section \<open>A source directory that is missing or holds no file\<close>

text \<open>
  C2, as the specification states it: a missing source directory raises a not-found error
  before any upload. It does not: on a file system where the resolved directory cannot
  be listed, the run returns normally.
\<close>

theorem missing_directory_no_error:
  "scandir (sample_env Posix no_dir dbfs_store) (local_dir_of ''dbfs:/run123/'' ''model'') = None
   \<and> copy_artifacts (sample_env Posix no_dir dbfs_store) ''dbfs:/run123/'' (Some ''model'') ([], [])
       = (Inr (), ([], []))"
  by (simp add: copy_artifacts_Some walk_def sample_env_def no_dir_def)

text \<open>
  C2, amended. When the resolved local directory does not exist, \<^verbatim>\<open>copy_artifacts\<close> raises
  no error and attempts no upload: it returns normally and leaves the remote state and
  the trace as they were.
\<close>

theorem missing_directory_copies_nothing:
  assumes "scandir env (local_dir_of artifact_uri artifact_path) = None"
  shows "copy_artifacts env artifact_uri (Some artifact_path) (w, tr) = (Inr (), (w, tr))"
  using assms by (simp add: copy_artifacts_Some walk_def)

theorem missing_directory_copies_nothing_witness:
  "scandir (sample_env Nt no_dir forbidden) (local_dir_of ''dbfs:/run123'' ''/model'') = None
   \<and> copy_artifacts (sample_env Nt no_dir forbidden) ''dbfs:/run123'' (Some ''/model'') ([''x''], [])
       = (Inr (), ([''x''], []))"
proof -
  have h: "scandir (sample_env Nt no_dir forbidden) (local_dir_of ''dbfs:/run123'' ''/model'') = None"
    by (simp add: sample_env_def no_dir_def)
  from missing_directory_copies_nothing [OF h] h show ?thesis by simp
qed

section \<open>Running the copy a second time\<close>

lemma create_or_conflictD:
  assumes "create_or_conflict env objects" and "http_request_safe env rq w = (res, w')"
  shows "objects w \<subseteq> objects w'"
    and "rq_endpoint rq \<in> objects w \<Longrightarrow> \<exists>e. res = Inl e \<and> is_conflict e"
    and "outcome res = Inr () \<Longrightarrow> rq_endpoint rq \<in> objects w'"
proof -
  note inst = assms(1) [unfolded create_or_conflict_def, rule_format, where rq = rq and w = w]
  from inst have *:
    "objects w \<subseteq> objects w'"
    "rq_endpoint rq \<in> objects w \<longrightarrow> (\<exists>e. res = Inl e \<and> is_conflict e)"
    "(case res of Inl e \<Rightarrow> is_conflict e | Inr u \<Rightarrow> True) \<longrightarrow> rq_endpoint rq \<in> objects w'"
    by (simp_all add: assms(2))
  show "objects w \<subseteq> objects w'" by (rule *(1))
  show "rq_endpoint rq \<in> objects w \<Longrightarrow> \<exists>e. res = Inl e \<and> is_conflict e" using *(2) by blast
  show "outcome res = Inr () \<Longrightarrow> rq_endpoint rq \<in> objects w'"
    using *(3) by (cases res) (simp_all add: outcome_cases)
qed

text \<open>
  A call that returned normally left its requests' objects in the store, and it can be
  replayed from every state that holds those objects: the replay returns normally too,
  sends the same requests, and each is answered by "already exists".
\<close>

lemma copy_artifact_replay:
  assumes c: "create_or_conflict env objects"
      and run: "copy_artifact env f uri ap (w, tr) = (Inr (), (w', tr'))"
  shows "\<exists>new. tr' = tr @ new \<and> objects w \<subseteq> objects w'
           \<and> rq_endpoint ` set (requests new) \<subseteq> objects w'
           \<and> replayable env objects (copy_artifact env f uri ap) new"
proof (cases "prepare env f uri ap")
  case None
  from copy_artifact_unprepared [OF None, of "(w, tr)"] run show ?thesis by auto
next
  case (Some a)
  obtain pre rq where a: "a = (pre, rq)" by (cases a)
  note p = Some [unfolded a]
  obtain res w1 where h: "http_request_safe env rq w = (res, w1)" by (cases "http_request_safe env rq w")
  from copy_artifact_prepared [OF p, of w tr] run h
  have tr': "tr' = tr @ pre @ [Requested rq res]" and ok: "outcome res = Inr ()" and w1: "w1 = w'"
    by auto
  from prepare_shape [OF p] have pre: "pre = [] \<or> pre = [Opened f]" by simp
  have rqs: "requests (pre @ [Requested rq res]) = [rq]" using pre by auto
  have "replayable env objects (copy_artifact env f uri ap) (pre @ [Requested rq res])"
    unfolding replayable_def
  proof (intro allI impI)
    fix W TR
    assume "rq_endpoint ` set (requests (pre @ [Requested rq res])) \<subseteq> objects W"
    then have taken: "rq_endpoint rq \<in> objects W" by (simp add: rqs)
    obtain res2 W2 where h2: "http_request_safe env rq W = (res2, W2)"
      by (cases "http_request_safe env rq W")
    from create_or_conflictD(2) [OF c h2 taken] obtain e where e: "res2 = Inl e" "is_conflict e"
      by blast
    then have o2: "outcome res2 = Inr ()" by (simp add: outcome_cases)
    have "copy_artifact env f uri ap (W, TR) = (Inr (), (W2, TR @ pre @ [Requested rq res2]))"
      by (simp add: copy_artifact_prepared [OF p] h2 o2)
    moreover have "list_all conflict_answer (pre @ [Requested rq res2])"
      using pre e by auto
    moreover have "requests (pre @ [Requested rq res2]) = requests (pre @ [Requested rq res])"
      using pre by auto
    ultimately show "\<exists>W' new'. copy_artifact env f uri ap (W, TR) = (Inr (), (W', TR @ new'))
        \<and> objects W \<subseteq> objects W' \<and> list_all conflict_answer new'
        \<and> requests new' = requests (pre @ [Requested rq res])"
      using create_or_conflictD(1) [OF c h2] by blast
  qed
  with tr' create_or_conflictD(1,3) [OF c h] ok w1 rqs show ?thesis by auto
qed

text \<open>Two calls in sequence, each replayable, are replayable together.\<close>

lemma replayable_seq:
  assumes first: "replayable env objects run1 new1"
      and rest: "replayable env objects run2 new2"
      and seq: "\<And>W TR W1 TR1. run1 (W, TR) = (Inr (), (W1, TR1)) \<Longrightarrow> run (W, TR) = run2 (W1, TR1)"
  shows "replayable env objects run (new1 @ new2)"
  unfolding replayable_def
proof (intro allI impI)
  fix W TR
  assume sub: "rq_endpoint ` set (requests (new1 @ new2)) \<subseteq> objects W"
  then have s1: "rq_endpoint ` set (requests new1) \<subseteq> objects W"
    and s2: "rq_endpoint ` set (requests new2) \<subseteq> objects W"
    by (auto simp: requests_append)
  from first [unfolded replayable_def, rule_format, OF s1, of TR] obtain W1 n1 where
    r1: "run1 (W, TR) = (Inr (), (W1, TR @ n1))" "objects W \<subseteq> objects W1"
        "list_all conflict_answer n1" "requests n1 = requests new1"
    by blast
  from s2 r1(2) have "rq_endpoint ` set (requests new2) \<subseteq> objects W1" by blast
  from rest [unfolded replayable_def, rule_format, OF this, of "TR @ n1"] obtain W2 n2 where
    r2: "run2 (W1, TR @ n1) = (Inr (), (W2, (TR @ n1) @ n2))" "objects W1 \<subseteq> objects W2"
        "list_all conflict_answer n2" "requests n2 = requests new2"
    by blast
  from seq [OF r1(1)] r2(1) have "run (W, TR) = (Inr (), (W2, TR @ (n1 @ n2)))" by simp
  moreover have "objects W \<subseteq> objects W2" using r1(2) r2(2) by blast
  moreover have "list_all conflict_answer (n1 @ n2)" using r1(3) r2(3) by simp
  moreover have "requests (n1 @ n2) = requests (new1 @ new2)"
    using r1(4) r2(4) by (simp add: requests_append)
  ultimately show "\<exists>W' new'. run (W, TR) = (Inr (), (W', TR @ new')) \<and> objects W \<subseteq> objects W'
      \<and> list_all conflict_answer new' \<and> requests new' = requests (new1 @ new2)"
    by blast
qed

lemma replayable_skip: "replayable env objects (\<lambda>s. (Inr (), s)) []"
  by (simp add: replayable_def)

lemma copy_files_replay:
  assumes c: "create_or_conflict env objects"
      and run: "copy_files env uri sub dirpath names (w, tr) = (Inr (), (w', tr'))"
  shows "\<exists>new. tr' = tr @ new \<and> objects w \<subseteq> objects w'
           \<and> rq_endpoint ` set (requests new) \<subseteq> objects w'
           \<and> replayable env objects (copy_files env uri sub dirpath names) new"
  using run
proof (induction names arbitrary: w tr)
  case Nil
  then show ?case using replayable_skip [of env objects] by (simp add: replayable_def)
next
  case (Cons name names)
  let ?f = "os_path_join (os_path env) dirpath name"
  obtain r1 w1 tr1 where one: "copy_artifact env ?f uri (Some sub) (w, tr) = (r1, (w1, tr1))"
    by (metis surj_pair)
  from Cons.prems one have r1: "r1 = Inr ()"
    by (cases r1) (auto simp: Let_def)
  with Cons.prems one have rest: "copy_files env uri sub dirpath names (w1, tr1) = (Inr (), (w', tr'))"
    by (simp add: Let_def)
  from copy_artifact_replay [OF c one [unfolded r1]] obtain new1 where
    n1: "tr1 = tr @ new1" "objects w \<subseteq> objects w1" "rq_endpoint ` set (requests new1) \<subseteq> objects w1"
        "replayable env objects (copy_artifact env ?f uri (Some sub)) new1"
    by blast
  from Cons.IH [OF rest] obtain new2 where
    n2: "tr' = tr1 @ new2" "objects w1 \<subseteq> objects w'" "rq_endpoint ` set (requests new2) \<subseteq> objects w'"
        "replayable env objects (copy_files env uri sub dirpath names) new2"
    by blast
  have rep: "replayable env objects (copy_files env uri sub dirpath (name # names)) (new1 @ new2)"
    by (rule replayable_seq [OF n1(4) n2(4)]) (simp add: Let_def)
  have sub: "rq_endpoint ` set (requests (new1 @ new2)) \<subseteq> objects w'"
    using n1(3) n2(2,3) by (auto simp: requests_append)
  show ?case
  proof (intro exI conjI)
    show "tr' = tr @ (new1 @ new2)" using n1(1) n2(1) by simp
    show "objects w \<subseteq> objects w'" using n1(2) n2(2) by blast
    show "rq_endpoint ` set (requests (new1 @ new2)) \<subseteq> objects w'" by (rule sub)
    show "replayable env objects (copy_files env uri sub dirpath (name # names)) (new1 @ new2)"
      by (rule rep)
  qed
qed

lemma copy_dirs_replay:
  assumes c: "create_or_conflict env objects"
      and run: "copy_dirs env uri ap local_dir triples (w, tr) = (Inr (), (w', tr'))"
  shows "\<exists>new. tr' = tr @ new \<and> objects w \<subseteq> objects w'
           \<and> rq_endpoint ` set (requests new) \<subseteq> objects w'
           \<and> replayable env objects (copy_dirs env uri ap local_dir triples) new"
  using run
proof (induction triples arbitrary: w tr)
  case Nil
  then show ?case by (simp add: replayable_def)
next
  case (Cons t triples)
  obtain dirpath dirnames filenames where t: "t = (dirpath, dirnames, filenames)" by (cases t)
  from Cons.prems t obtain sub where sub: "subdir_of (os_path env) ap local_dir dirpath = Inr sub"
    by (cases "subdir_of (os_path env) ap local_dir dirpath") auto
  obtain r1 w1 tr1 where one: "copy_files env uri sub dirpath filenames (w, tr) = (r1, (w1, tr1))"
    by (metis surj_pair)
  from Cons.prems one t sub have r1: "r1 = Inr ()"
    by (cases r1) auto
  with Cons.prems one t sub
  have rest: "copy_dirs env uri ap local_dir triples (w1, tr1) = (Inr (), (w', tr'))"
    by simp
  from copy_files_replay [OF c one [unfolded r1]] obtain new1 where
    n1: "tr1 = tr @ new1" "objects w \<subseteq> objects w1" "rq_endpoint ` set (requests new1) \<subseteq> objects w1"
        "replayable env objects (copy_files env uri sub dirpath filenames) new1"
    by blast
  from Cons.IH [OF rest] obtain new2 where
    n2: "tr' = tr1 @ new2" "objects w1 \<subseteq> objects w'" "rq_endpoint ` set (requests new2) \<subseteq> objects w'"
        "replayable env objects (copy_dirs env uri ap local_dir triples) new2"
    by blast
  have rep: "replayable env objects (copy_dirs env uri ap local_dir (t # triples)) (new1 @ new2)"
    by (rule replayable_seq [OF n1(4) n2(4)]) (simp add: t sub)
  have inc: "rq_endpoint ` set (requests (new1 @ new2)) \<subseteq> objects w'"
    using n1(3) n2(2,3) by (auto simp: requests_append)
  show ?case
  proof (intro exI conjI)
    show "tr' = tr @ (new1 @ new2)" using n1(1) n2(1) by simp
    show "objects w \<subseteq> objects w'" using n1(2) n2(2) by blast
    show "rq_endpoint ` set (requests (new1 @ new2)) \<subseteq> objects w'" by (rule inc)
    show "replayable env objects (copy_dirs env uri ap local_dir (t # triples)) (new1 @ new2)"
      by (rule rep)
  qed
qed

text \<open>
  C7. Against a remote store that keeps its objects and answers a request to a taken
  endpoint with "already exists": when a first run of \<^verbatim>\<open>copy_artifacts\<close> has returned
  normally, a second run on the same environment, from the state the first one left,
  returns normally as well; it sends the same requests, and every one of them is answered
  by "already exists".
\<close>

theorem second_run_resolves_by_conflicts:
  assumes "create_or_conflict env objects"
      and "copy_artifacts env artifact_uri (Some artifact_path) (w, []) = (Inr (), (w1, tr1))"
  shows "\<exists>w2 tr2. copy_artifacts env artifact_uri (Some artifact_path) (w1, []) = (Inr (), (w2, tr2))
           \<and> list_all conflict_answer tr2 \<and> requests tr2 = requests tr1"
proof -
  let ?ld = "local_dir_of artifact_uri artifact_path"
  from assms(2) have "copy_dirs env artifact_uri artifact_path ?ld (walk env ?ld) (w, []) = (Inr (), (w1, tr1))"
    by (simp add: copy_artifacts_Some)
  from copy_dirs_replay [OF assms(1) this] have
    sub: "rq_endpoint ` set (requests tr1) \<subseteq> objects w1"
    and rep: "replayable env objects (copy_dirs env artifact_uri artifact_path ?ld (walk env ?ld)) tr1"
    by auto
  from rep [unfolded replayable_def, rule_format, OF sub, of "[]"]
  show ?thesis by (auto simp: copy_artifacts_Some)
qed

lemma sample_second_run:
  "copy_artifacts (sample_env Posix run_dir dbfs_store) ''dbfs:/run123/'' (Some ''model'') (sample_objects, [])
   = (Inr (), (sample_objects,
       [Opened ''/dbfs/run123/model/MLmodel'', Requested request_MLmodel (Inl already_exists),
        Requested request_h5 (Inl already_exists)]))"
  by code_simp

lemma dbfs_store_contract: "create_or_conflict (sample_env h listing dbfs_store) set"
proof -
  have "is_conflict (MlflowException ''RESOURCE_ALREADY_EXISTS: File already exists'')"
    by code_simp
  moreover have "http_request_safe (sample_env h listing dbfs_store) = dbfs_store"
    by (simp add: sample_env_def)
  ultimately show ?thesis
    by (auto simp: create_or_conflict_def dbfs_store_def)
qed

theorem second_run_resolves_by_conflicts_witness:
  "copy_artifacts (sample_env Posix run_dir dbfs_store) ''dbfs:/run123/'' (Some ''model'') ([], [])
     = (Inr (), (sample_objects,
         [Opened ''/dbfs/run123/model/MLmodel'', Requested request_MLmodel (Inr ()),
          Requested request_h5 (Inr ())]))
   \<and> copy_artifacts (sample_env Posix run_dir dbfs_store) ''dbfs:/run123/'' (Some ''model'')
       (sample_objects, [])
     = (Inr (), (sample_objects,
         [Opened ''/dbfs/run123/model/MLmodel'', Requested request_MLmodel (Inl already_exists),
          Requested request_h5 (Inl already_exists)]))
   \<and> is_conflict already_exists"
proof -
  from second_run_resolves_by_conflicts [OF dbfs_store_contract sample_first_run]
  have "list_all conflict_answer
          [Opened ''/dbfs/run123/model/MLmodel'', Requested request_MLmodel (Inl already_exists),
           Requested request_h5 (Inl already_exists)]"
    by (simp add: sample_second_run)
  then have "is_conflict already_exists" by simp
  then show ?thesis by (simp add: sample_first_run sample_second_run)
qed

section \<open>Paths of the walk\<close>

lemma split_on_nonempty: "split_on P s \<noteq> []"
  by (induction s) (auto split: list.splits)

lemma split_on_free: "\<forall>c \<in> set n. \<not> P c \<Longrightarrow> split_on P n = [n]"
  by (induction n) auto

lemma split_on_at_sep: "P s \<Longrightarrow> split_on P (a @ s # b) = split_on P a @ split_on P b"
proof (induction a)
  case Nil
  then show ?case by simp
next
  case (Cons c a)
  then show ?case
    using split_on_nonempty [of P a] by (cases "split_on P a") auto
qed

lemma is_sep_os_sep: "is_sep h (os_sep h)"
  by (cases h) (simp_all add: is_sep_def os_sep_def)

lemma valid_nameD:
  assumes "valid_name h n"
  shows "n \<noteq> []" "n \<noteq> ''.''" "n \<noteq> ''..''" "\<forall>c \<in> set n. \<not> is_sep h c"
    "\<not> is_sep h (hd n)" "\<not> is_sep h (last n)" "CHR ''/'' \<notin> set n"
    "h = Nt \<Longrightarrow> CHR '':'' \<notin> set n" "h = Nt \<Longrightarrow> CHR 0x5C \<notin> set n"
  using assms by (auto simp: valid_name_def list_all_iff is_sep_def)

lemma os_path_join_name:
  assumes "valid_name h n"
  shows "os_path_join h a n = (if a = [] \<or> is_sep h (last a) then a @ n else a @ os_sep h # n)"
  using valid_nameD(1,5) [OF assms] by (simp add: os_path_join_def)

lemma os_path_join_nonempty: "valid_name h n \<Longrightarrow> os_path_join h a n \<noteq> []"
  using valid_nameD(1) [of h n] by (simp add: os_path_join_name)

lemma norm_step_name: "valid_name h n \<Longrightarrow> norm_step acc n = acc @ [n]"
  using valid_nameD(1-3) [of h n] by (simp add: norm_step_def)

lemma abs_components_join:
  assumes n: "valid_name h n" and a: "a \<noteq> []"
  shows "abs_components h (os_path_join h a n) = abs_components h a @ [n]"
proof (cases "is_sep h (last a)")
  case True
  from a have split: "a = butlast a @ [last a]" by simp
  have "split_on (is_sep h) (butlast a @ last a # n) = split_on (is_sep h) (butlast a) @ [n]"
    using True valid_nameD(4) [OF n] by (simp add: split_on_at_sep split_on_free)
  moreover have "split_on (is_sep h) (butlast a @ last a # []) = split_on (is_sep h) (butlast a) @ [[]]"
    using True by (simp add: split_on_at_sep)
  moreover have "os_path_join h a n = butlast a @ last a # n"
    using True a by (simp add: os_path_join_name [OF n])
  ultimately have
    "abs_components h (os_path_join h a n)
       = norm_step (foldl norm_step [] (split_on (is_sep h) (butlast a))) n"
    "abs_components h (butlast a @ [last a]) = foldl norm_step [] (split_on (is_sep h) (butlast a))"
    by (simp_all add: abs_components_def norm_step_def)
  with split show ?thesis by (simp add: norm_step_name [OF n])
next
  case False
  have "split_on (is_sep h) (a @ os_sep h # n) = split_on (is_sep h) a @ [n]"
    using valid_nameD(4) [OF n] by (simp add: split_on_at_sep is_sep_os_sep split_on_free)
  with False a show ?thesis
    by (simp add: abs_components_def os_path_join_name [OF n] norm_step_name [OF n])
qed

lemma chain_path_snoc: "chain_path h a (c @ [n]) = os_path_join h (chain_path h a c) n"
  by (simp add: chain_path_def)

lemma chain_path_nonempty:
  "a \<noteq> [] \<Longrightarrow> \<forall>n \<in> set c. valid_name h n \<Longrightarrow> chain_path h a c \<noteq> []"
  by (induction c rule: rev_induct) (simp_all add: chain_path_def os_path_join_nonempty)

lemma abs_components_chain:
  "a \<noteq> [] \<Longrightarrow> \<forall>n \<in> set c. valid_name h n
     \<Longrightarrow> abs_components h (chain_path h a c) = abs_components h a @ c"
proof (induction c rule: rev_induct)
  case Nil
  then show ?case by (simp add: chain_path_def)
next
  case (snoc n c)
  then have "chain_path h a c \<noteq> []" by (simp add: chain_path_nonempty)
  with snoc show ?case by (simp add: chain_path_snoc abs_components_join)
qed

lemma chain_path_differs:
  assumes "a \<noteq> []" "\<forall>n \<in> set c. valid_name h n" "c \<noteq> []"
  shows "chain_path h a c \<noteq> a"
proof
  assume "chain_path h a c = a"
  then have "abs_components h (chain_path h a c) = abs_components h a" by simp
  with abs_components_chain [OF assms(1,2)] assms(3) show False by simp
qed

lemma common_len_prefix: "common_len h xs (xs @ ys) = length xs"
  by (induction xs) simp_all

lemma foldl_join_names:
  assumes "acc \<noteq> []" "\<not> is_sep h (last acc)" "\<forall>n \<in> set ns. valid_name h n"
  shows "foldl (os_path_join h) acc ns = acc @ concat (map (\<lambda>n. os_sep h # n) ns)"
  using assms
proof (induction ns arbitrary: acc)
  case Nil
  then show ?case by simp
next
  case (Cons n ns)
  then have n: "valid_name h n" by simp
  have step: "os_path_join h acc n = acc @ os_sep h # n"
    using Cons.prems(1,2) by (simp add: os_path_join_name [OF n])
  have "last (acc @ os_sep h # n) = last n" using valid_nameD(1) [OF n] by simp
  then have "\<not> is_sep h (last (acc @ os_sep h # n))" using valid_nameD(6) [OF n] by simp
  with Cons.IH [of "acc @ os_sep h # n"] Cons.prems(3) step show ?case by simp
qed

lemma slash_join_flat: "slash_join (x # ys) = x @ concat (map (\<lambda>n. CHR ''/'' # n) ys)"
  by (induction ys arbitrary: x) simp_all

lemma relpath_chain:
  assumes a: "a \<noteq> []" and c: "\<forall>n \<in> set c. valid_name h n" and ne: "c \<noteq> []"
  shows "os_path_relpath h (chain_path h a c) a
           = Inr (hd c @ concat (map (\<lambda>n. os_sep h # n) (tl c)))"
proof -
  from ne obtain x ys where xy: "c = x # ys" by (cases c) auto
  with c have x: "valid_name h x" and ys: "\<forall>n \<in> set ys. valid_name h n" by simp_all
  have "foldl (os_path_join h) x ys = x @ concat (map (\<lambda>n. os_sep h # n) ys)"
    using valid_nameD(1,6) [OF x] ys by (intro foldl_join_names) simp_all
  moreover have "os_path_relpath h (chain_path h a c) a
                   = Inr (foldl (os_path_join h) (hd c) (tl c))"
    using chain_path_nonempty [OF a c] ne
    by (simp add: os_path_relpath_def abs_components_chain [OF a c] common_len_prefix Let_def)
  ultimately show ?thesis by (simp add: xy)
qed

section \<open>From the relative path to the artifact subdirectory\<close>

lemma nt_absoluteD: "nt_absolute p \<Longrightarrow> CHR '':'' \<in> set p \<or> (p \<noteq> [] \<and> is_sep Nt (hd p))"
  by (auto simp: nt_absolute_def split: list.splits)

lemma artifact_path_of_chain:
  assumes x: "valid_name h x" and ys: "\<forall>n \<in> set ys. valid_name h n"
  shows "relative_path_to_artifact_path h (x @ concat (map (\<lambda>n. os_sep h # n) ys))
           = Inr (slash_join (x # ys))"
proof (cases h)
  case Posix
  then show ?thesis
    by (simp add: relative_path_to_artifact_path_def slash_join_flat os_sep_def)
next
  case Nt
  let ?p = "x @ concat (map (\<lambda>n. CHR 0x5C # n) ys)"
  have colon: "CHR '':'' \<notin> set ?p"
    using valid_nameD(8) [OF x Nt] ys valid_nameD(8) [OF _ Nt] by auto
  have "hd ?p = hd x" using valid_nameD(1) [OF x] by simp
  then have "\<not> is_sep Nt (hd ?p)" using valid_nameD(5) [OF x] Nt by simp
  with colon have rel: "\<not> nt_absolute ?p" using nt_absoluteD [of ?p] by blast
  have keep: "map (\<lambda>c. if c = CHR 0x5C then CHR ''/'' else c) n = n" if "valid_name h n" for n
    using valid_nameD(9) [OF that Nt] by (induction n) auto
  have "map (\<lambda>c. if c = CHR 0x5C then CHR ''/'' else c) (concat (map (\<lambda>n. CHR 0x5C # n) ys))
          = concat (map (\<lambda>n. CHR ''/'' # n) ys)"
    using ys by (induction ys) (simp_all add: keep)
  then have "map (\<lambda>c. if c = CHR 0x5C then CHR ''/'' else c) ?p = slash_join (x # ys)"
    by (simp add: slash_join_flat keep [OF x])
  with colon rel Nt show ?thesis
    by (simp add: relative_path_to_artifact_path_def os_sep_def)
qed

lemma subdir_of_chain:
  assumes a: "a \<noteq> []" and c: "\<forall>n \<in> set c. valid_name h n"
  shows "subdir_of h ap a (chain_path h a c)
           = Inr (if c = [] then ap else posixpath_join ap (slash_join c))"
proof (cases c)
  case Nil
  then show ?thesis by (simp add: subdir_of_def chain_path_def)
next
  case (Cons x ys)
  with c have x: "valid_name h x" and ys: "\<forall>n \<in> set ys. valid_name h n" by simp_all
  have ne: "c \<noteq> []" using Cons by simp
  from chain_path_differs [OF a c ne] relpath_chain [OF a c ne] artifact_path_of_chain [OF x ys]
  show ?thesis by (simp add: subdir_of_def Cons)
qed

lemma takeWhile_until: "\<forall>c \<in> set xs. Q c \<Longrightarrow> \<not> Q s \<Longrightarrow> takeWhile Q (xs @ s # rest) = xs"
  by (induction xs) auto

lemma basename_join:
  assumes n: "valid_name h n" and a: "a \<noteq> []"
  shows "os_path_basename h (os_path_join h a n) = n"
proof -
  have tw: "takeWhile (\<lambda>c. \<not> is_sep h c) (rev n @ s # rest) = rev n" if "is_sep h s" for s rest
    using that valid_nameD(4) [OF n] by (intro takeWhile_until) simp_all
  show ?thesis
  proof (cases "is_sep h (last a)")
    case True
    from a have ra: "rev a = last a # rev (butlast a)"
      by (metis append_butlast_last_id rev.simps(2) rev_rev_ident rev_swap)
    have "os_path_basename h (os_path_join h a n)
            = rev (takeWhile (\<lambda>c. \<not> is_sep h c) (rev n @ rev a))"
      using True a by (simp add: os_path_basename_def os_path_join_name [OF n])
    also have "\<dots> = rev (rev n)" by (simp only: ra tw [OF True])
    finally show ?thesis by simp
  next
    case False
    with tw [of "os_sep h" "rev a"] a show ?thesis
      by (simp add: os_path_basename_def os_path_join_name [OF n] is_sep_os_sep)
  qed
qed

section \<open>The endpoint of a file of the walk\<close>

lemma posixpath_join_rel:
  "b \<noteq> [] \<Longrightarrow> hd b \<noteq> CHR ''/''
     \<Longrightarrow> posixpath_join a b = (if a = [] \<or> last a = CHR ''/'' then a @ b else a @ ''/'' @ b)"
  by (simp add: posixpath_join_def os_path_join_def is_sep_def os_sep_def)

lemma strip_prefix_slash:
  "strip_prefix q ''/'' = (if q \<noteq> [] \<and> hd q = CHR ''/'' then tl q else q)"
  by (cases q) (simp_all add: strip_prefix_def startswith_def)

lemma slash_join_shape:
  assumes "valid_name h x" "\<forall>n \<in> set ys. valid_name h n"
  shows "slash_join (x # ys) \<noteq> []" "hd (slash_join (x # ys)) \<noteq> CHR ''/''"
    "last (slash_join (x # ys)) \<noteq> CHR ''/''"
proof -
  show "slash_join (x # ys) \<noteq> []" "hd (slash_join (x # ys)) \<noteq> CHR ''/''"
    using valid_nameD(1,5) [OF assms(1)] by (simp_all add: slash_join_flat is_sep_def)
  show "last (slash_join (x # ys)) \<noteq> CHR ''/''"
  proof (cases ys rule: rev_cases)
    case Nil
    then show ?thesis using valid_nameD(1,6) [OF assms(1)] by (simp add: is_sep_def)
  next
    case (snoc zs z)
    with assms(2) have z: "valid_name h z" by simp
    from valid_nameD(1,6) [OF z] show ?thesis
      by (simp add: slash_join_flat snoc is_sep_def)
  qed
qed

lemma slash_join_snoc:
  "c \<noteq> [] \<Longrightarrow> slash_join (c @ [n]) = slash_join c @ ''/'' @ n"
  by (cases c) (simp_all add: slash_join_flat)

lemma strip_posixpath_join:
  assumes "S \<noteq> []" "hd S \<noteq> CHR ''/''"
  shows "strip_prefix (posixpath_join ap S) ''/''
           = (if strip_prefix ap ''/'' = [] \<or> last (strip_prefix ap ''/'') = CHR ''/''
              then strip_prefix ap ''/'' else strip_prefix ap ''/'' @ ''/'') @ S"
proof (cases ap)
  case Nil
  with assms show ?thesis by (simp add: posixpath_join_rel strip_prefix_slash)
next
  case (Cons a as)
  with assms show ?thesis
    by (cases as rule: rev_cases) (auto simp: posixpath_join_rel strip_prefix_slash)
qed

lemma endpoint_of_file:
  assumes c: "\<forall>x \<in> set c. valid_name h x" and n: "valid_name h n" and d: "dirpath \<noteq> []"
  shows "endpoint_for h (os_path_join h dirpath n) artifact_uri
           (Some (if c = [] then ap else posixpath_join ap (slash_join c)))
         = destination_endpoint artifact_uri ap (c, n)"
proof -
  let ?S = "slash_join (c @ [n])"
  let ?sub = "if c = [] then ap else posixpath_join ap (slash_join c)"
  obtain x ys where xy: "c @ [n] = x # ys" by (cases "c @ [n]") auto
  have all: "\<forall>m \<in> set (c @ [n]). valid_name h m" using c n by simp
  then have x: "valid_name h x" and ys: "\<forall>m \<in> set ys. valid_name h m"
    unfolding xy by simp_all
  note S = slash_join_shape [OF x ys, folded xy]
  have nn: "n \<noteq> []" "hd n \<noteq> CHR ''/''"
    using valid_nameD(1,5) [OF n] by (simp_all add: is_sep_def)
  have arg: "posixpath_join ?sub n = posixpath_join ap ?S"
  proof (cases c)
    case Nil
    then show ?thesis by simp
  next
    case (Cons y zs)
    with c have y: "valid_name h y" and zs: "\<forall>m \<in> set zs. valid_name h m" by simp_all
    note Sc = slash_join_shape [OF y zs, folded Cons]
    have ne: "c \<noteq> []" using Cons by simp
    have "posixpath_join (posixpath_join ap (slash_join c)) n
            = posixpath_join ap (slash_join c) @ ''/'' @ n"
      using Sc nn by (simp add: posixpath_join_rel)
    also have "\<dots> = posixpath_join ap (slash_join c @ ''/'' @ n)"
      using Sc by (simp add: posixpath_join_rel)
    finally show ?thesis using ne by (simp add: slash_join_snoc)
  qed
  have "endpoint_for h (os_path_join h dirpath n) artifact_uri (Some ?sub)
          = get_dbfs_endpoint artifact_uri (posixpath_join ?sub n)"
    using nn by (simp add: endpoint_for_def basename_join [OF n d] posixpath_join_rel)
  also have "\<dots> = get_dbfs_endpoint artifact_uri (posixpath_join ap ?S)"
    by (simp only: arg)
  also have "\<dots> = destination_endpoint artifact_uri ap (c, n)"
    using strip_posixpath_join [OF S(1,2), of ap]
    by (simp add: get_dbfs_endpoint_def destination_endpoint_def Let_def)
  finally show ?thesis .
qed

section \<open>The endpoints of a whole walk\<close>

lemma local_dir_nonempty: "local_dir_of artifact_uri artifact_path \<noteq> []"
  by (simp add: local_dir_of_def)

lemma concat_map_concat: "concat (map f (concat xss)) = concat (map (\<lambda>xs. concat (map f xs)) xss)"
  by (induction xss) simp_all

lemma dir_endpoints_chain:
  assumes a: "a \<noteq> []" and c: "\<forall>n \<in> set c. valid_name h n"
      and files: "\<forall>f \<in> set files. valid_name h f"
  shows "dir_endpoints h uri ap a (chain_path h a c, dirnames, files)
           = map (\<lambda>f. destination_endpoint uri ap (c, f)) files"
  using files
  by (simp add: dir_endpoints_def subdir_of_chain [OF a c]
        endpoint_of_file [OF c _ chain_path_nonempty [OF a c]])

lemma walk_endpoints:
  assumes a: "a \<noteq> []"
  shows "valid_tree h t \<Longrightarrow> \<forall>n \<in> set c. valid_name h n
     \<Longrightarrow> concat (map (dir_endpoints h uri ap a) (os_walk h (chain_path h a c) t))
         = map (destination_endpoint uri ap) (map (\<lambda>cf. (c @ fst cf, snd cf)) (tree_files t))"
proof (induction t arbitrary: c rule: tree_files.induct)
  case (1 files subs)
  from "1.prems"(1) have files: "\<forall>f \<in> set files. valid_name h f"
    and subs: "\<forall>nd \<in> set subs. valid_name h (fst nd) \<and> valid_tree h (snd nd)"
    by simp_all
  have below: "concat (map (dir_endpoints h uri ap a)
                  (os_walk h (os_path_join h (chain_path h a c) (fst nd)) (snd nd)))
               = map (\<lambda>cf. destination_endpoint uri ap (c @ fst nd # fst cf, snd cf))
                   (tree_files (snd nd))"
    if nd: "nd \<in> set subs" for nd
  proof -
    from subs nd "1.prems"(2) have "\<forall>n \<in> set (c @ [fst nd]). valid_name h n" by simp
    from "1.IH" [OF nd _ this] subs nd show ?thesis
      by (simp add: chain_path_snoc comp_def)
  qed
  have "concat (map (dir_endpoints h uri ap a) (os_walk h (chain_path h a c) (Dir files subs)))
          = map (\<lambda>f. destination_endpoint uri ap (c, f)) files
            @ concat (map (\<lambda>nd. map (\<lambda>cf. destination_endpoint uri ap (c @ fst nd # fst cf, snd cf))
                                   (tree_files (snd nd))) subs)"
    using below
    by (simp add: dir_endpoints_chain [OF a "1.prems"(2) files] concat_map_concat comp_def
          cong: map_cong)
  also have "\<dots> = map (destination_endpoint uri ap)
                     (map (\<lambda>cf. (c @ fst cf, snd cf)) (tree_files (Dir files subs)))"
    by (simp add: comp_def map_concat)
  finally show ?case .
qed

lemma copy_artifact_endpoint:
  assumes "copy_artifact env f uri ap (w, tr) = (Inr (), (w', tr'))"
  shows "map rq_endpoint (requests tr')
           = map rq_endpoint (requests tr) @ [endpoint_for (os_path env) f uri ap]"
proof (cases "prepare env f uri ap")
  case None
  from copy_artifact_unprepared [OF None, of "(w, tr)"] assms show ?thesis by auto
next
  case (Some a)
  obtain pre rq where a: "a = (pre, rq)" by (cases a)
  from prepare_shape [OF Some [unfolded a]] copy_artifact_prepared [OF Some [unfolded a], of w tr] assms
  show ?thesis by (auto simp: requests_append)
qed

lemma copy_files_endpoints:
  assumes "copy_files env uri sub dirpath names (w, tr) = (Inr (), (w', tr'))"
  shows "map rq_endpoint (requests tr')
           = map rq_endpoint (requests tr)
             @ map (\<lambda>name. endpoint_for (os_path env) (os_path_join (os_path env) dirpath name) uri (Some sub))
                 names"
  using assms
proof (induction names arbitrary: w tr)
  case Nil
  then show ?case by simp
next
  case (Cons name names)
  obtain r1 w1 tr1 where one:
    "copy_artifact env (os_path_join (os_path env) dirpath name) uri (Some sub) (w, tr) = (r1, (w1, tr1))"
    by (metis surj_pair)
  from Cons.prems one have r1: "r1 = Inr ()" by (cases r1) (auto simp: Let_def)
  with Cons.prems one have rest: "copy_files env uri sub dirpath names (w1, tr1) = (Inr (), (w', tr'))"
    by (simp add: Let_def)
  from Cons.IH [OF rest] copy_artifact_endpoint [OF one [unfolded r1]] show ?case by simp
qed

lemma copy_dirs_endpoints:
  assumes "copy_dirs env uri ap local_dir triples (w, tr) = (Inr (), (w', tr'))"
  shows "map rq_endpoint (requests tr')
           = map rq_endpoint (requests tr)
             @ concat (map (dir_endpoints (os_path env) uri ap local_dir) triples)"
  using assms
proof (induction triples arbitrary: w tr)
  case Nil
  then show ?case by simp
next
  case (Cons t triples)
  obtain dirpath dirnames filenames where t: "t = (dirpath, dirnames, filenames)" by (cases t)
  from Cons.prems t obtain sub where sub: "subdir_of (os_path env) ap local_dir dirpath = Inr sub"
    by (cases "subdir_of (os_path env) ap local_dir dirpath") auto
  obtain r1 w1 tr1 where one: "copy_files env uri sub dirpath filenames (w, tr) = (r1, (w1, tr1))"
    by (metis surj_pair)
  from Cons.prems one t sub have r1: "r1 = Inr ()" by (cases r1) auto
  with Cons.prems one t sub
  have rest: "copy_dirs env uri ap local_dir triples (w1, tr1) = (Inr (), (w', tr'))" by simp
  from Cons.IH [OF rest] copy_files_endpoints [OF one [unfolded r1]] show ?case
    by (simp add: t dir_endpoints_def sub)
qed

section \<open>The file each request carries\<close>

lemma prepare_carries:
  assumes "prepare env f uri ap = Some (pre, rq)"
  shows "carries env rq f"
  using assms by (auto simp: prepare_def carries_def split: option.splits if_splits)

lemma copy_artifact_carries:
  assumes "copy_artifact env f uri ap (w, tr) = (Inr (), (w', tr'))"
  shows "\<exists>rq. requests tr' = requests tr @ [rq] \<and> carries env rq f"
proof (cases "prepare env f uri ap")
  case None
  from copy_artifact_unprepared [OF None, of "(w, tr)"] assms show ?thesis by auto
next
  case (Some a)
  obtain pre rq where a: "a = (pre, rq)" by (cases a)
  note p = Some [unfolded a]
  from prepare_shape [OF p] copy_artifact_prepared [OF p, of w tr] assms
  have "requests tr' = requests tr @ [rq]" by (auto simp: requests_append)
  with prepare_carries [OF p] show ?thesis by blast
qed

lemma copy_files_carries:
  assumes "copy_files env uri sub dirpath names (w, tr) = (Inr (), (w', tr'))"
  shows "\<exists>rqs. requests tr' = requests tr @ rqs
           \<and> list_all2 (carries env) rqs (map (os_path_join (os_path env) dirpath) names)"
  using assms
proof (induction names arbitrary: w tr)
  case Nil
  then show ?case by simp
next
  case (Cons name names)
  obtain r1 w1 tr1 where one:
    "copy_artifact env (os_path_join (os_path env) dirpath name) uri (Some sub) (w, tr) = (r1, (w1, tr1))"
    by (metis surj_pair)
  from Cons.prems one have r1: "r1 = Inr ()" by (cases r1) (auto simp: Let_def)
  with Cons.prems one have rest: "copy_files env uri sub dirpath names (w1, tr1) = (Inr (), (w', tr'))"
    by (simp add: Let_def)
  from copy_artifact_carries [OF one [unfolded r1]] obtain rq where
    rq: "requests tr1 = requests tr @ [rq]" "carries env rq (os_path_join (os_path env) dirpath name)"
    by blast
  from Cons.IH [OF rest] obtain rqs where
    rqs: "requests tr' = requests tr1 @ rqs"
         "list_all2 (carries env) rqs (map (os_path_join (os_path env) dirpath) names)"
    by blast
  from rq rqs have "requests tr' = requests tr @ (rq # rqs)
      \<and> list_all2 (carries env) (rq # rqs) (map (os_path_join (os_path env) dirpath) (name # names))"
    by simp
  then show ?case by blast
qed

lemma copy_dirs_carries:
  assumes "copy_dirs env uri ap local_dir triples (w, tr) = (Inr (), (w', tr'))"
  shows "\<exists>rqs. requests tr' = requests tr @ rqs
           \<and> list_all2 (carries env) rqs (concat (map (dir_paths (os_path env)) triples))"
  using assms
proof (induction triples arbitrary: w tr)
  case Nil
  then show ?case by simp
next
  case (Cons t triples)
  obtain dirpath dirnames filenames where t: "t = (dirpath, dirnames, filenames)" by (cases t)
  from Cons.prems t obtain sub where sub: "subdir_of (os_path env) ap local_dir dirpath = Inr sub"
    by (cases "subdir_of (os_path env) ap local_dir dirpath") auto
  obtain r1 w1 tr1 where one: "copy_files env uri sub dirpath filenames (w, tr) = (r1, (w1, tr1))"
    by (metis surj_pair)
  from Cons.prems one t sub have r1: "r1 = Inr ()" by (cases r1) auto
  with Cons.prems one t sub
  have rest: "copy_dirs env uri ap local_dir triples (w1, tr1) = (Inr (), (w', tr'))" by simp
  from copy_files_carries [OF one [unfolded r1]] obtain rqs1 where
    r1s: "requests tr1 = requests tr @ rqs1"
         "list_all2 (carries env) rqs1 (map (os_path_join (os_path env) dirpath) filenames)"
    by blast
  from Cons.IH [OF rest] obtain rqs2 where
    r2s: "requests tr' = requests tr1 @ rqs2"
         "list_all2 (carries env) rqs2 (concat (map (dir_paths (os_path env)) triples))"
    by blast
  from r1s r2s have "requests tr' = requests tr @ (rqs1 @ rqs2)
      \<and> list_all2 (carries env) (rqs1 @ rqs2) (concat (map (dir_paths (os_path env)) (t # triples)))"
    by (simp add: t dir_paths_def list_all2_appendI)
  then show ?case by blast
qed

lemma walk_paths:
  "concat (map (dir_paths h) (os_walk h (chain_path h a c) t))
     = map (\<lambda>cf. local_path h a (c @ fst cf, snd cf)) (tree_files t)"
proof (induction t arbitrary: c rule: tree_files.induct)
  case (1 files subs)
  have below: "concat (map (dir_paths h) (os_walk h (os_path_join h (chain_path h a c) (fst nd)) (snd nd)))
               = map (\<lambda>cf. local_path h a (c @ fst nd # fst cf, snd cf)) (tree_files (snd nd))"
    if nd: "nd \<in> set subs" for nd
    using "1.IH" [OF nd, of "c @ [fst nd]"] by (simp add: chain_path_snoc)
  have "concat (map (dir_paths h) (os_walk h (chain_path h a c) (Dir files subs)))
          = map (\<lambda>f. local_path h a (c, f)) files
            @ concat (map (\<lambda>nd. map (\<lambda>cf. local_path h a (c @ fst nd # fst cf, snd cf))
                                   (tree_files (snd nd))) subs)"
    using below
    by (simp add: dir_paths_def local_path_def chain_path_snoc concat_map_concat comp_def
          cong: map_cong)
  also have "\<dots> = map (\<lambda>cf. local_path h a (c @ fst cf, snd cf)) (tree_files (Dir files subs))"
    by (simp add: comp_def map_concat)
  finally show ?case .
qed

text \<open>
  C1. On either host convention, for a tree of well-formed names at the resolved local
  directory: when \<^verbatim>\<open>copy_artifacts\<close> returns normally, its upload requests are, in the
  order of the walk, one per file of the tree. The endpoint of each is the endpoint of the
  artifact directory followed by the file's chain of subdirectories and its basename,
  joined by forward slashes; and each request carries the file at the local path of that
  chain and basename.
\<close>

theorem uploads_follow_tree:
  assumes "scandir env (local_dir_of artifact_uri artifact_path) = Some t"
      and "valid_tree (os_path env) t"
      and "copy_artifacts env artifact_uri (Some artifact_path) (w, []) = (Inr (), (w', tr))"
  shows "map rq_endpoint (requests tr)
           = map (destination_endpoint artifact_uri artifact_path) (tree_files t)
       \<and> list_all2 (carries env) (requests tr)
           (map (local_path (os_path env) (local_dir_of artifact_uri artifact_path)) (tree_files t))"
proof -
  let ?ld = "local_dir_of artifact_uri artifact_path"
  let ?h = "os_path env"
  from assms(1,3) have run: "copy_dirs env artifact_uri artifact_path ?ld (os_walk ?h ?ld t) (w, [])
                          = (Inr (), (w', tr))"
    by (simp add: copy_artifacts_Some walk_def)
  from copy_dirs_endpoints [OF run]
  have "map rq_endpoint (requests tr)
          = concat (map (dir_endpoints ?h artifact_uri artifact_path ?ld)
              (os_walk ?h (chain_path ?h ?ld []) t))"
    by (simp add: chain_path_def)
  also have "\<dots> = map (destination_endpoint artifact_uri artifact_path) (tree_files t)"
    using walk_endpoints [OF local_dir_nonempty assms(2), of "[]"] by simp
  finally have endpoints: "map rq_endpoint (requests tr)
      = map (destination_endpoint artifact_uri artifact_path) (tree_files t)" .
  from copy_dirs_carries [OF run]
  have "list_all2 (carries env) (requests tr)
          (concat (map (dir_paths ?h) (os_walk ?h (chain_path ?h ?ld []) t)))"
    by (simp add: chain_path_def)
  then have "list_all2 (carries env) (requests tr) (map (local_path ?h ?ld) (tree_files t))"
    by (simp add: walk_paths)
  with endpoints show ?thesis by blast
qed

lemma sample_nt_run:
  "copy_artifacts (sample_env Nt run_dir dbfs_store) ''dbfs:/run123/'' (Some ''model'') ([], [])
   = (Inr (), (sample_objects,
       [Opened (''/dbfs/run123/model'' @ CHR 0x5C # ''MLmodel''),
        Requested (request_MLmodel\<lparr>rq_data :=
            File_data (''/dbfs/run123/model'' @ CHR 0x5C # ''MLmodel'') ''flavors''\<rparr>) (Inr ()),
        Requested request_h5 (Inr ())]))"
  by code_simp

lemma sample_tree_valid: "valid_tree Nt model_tree"
  by code_simp

lemma sample_destinations:
  "map (destination_endpoint ''dbfs:/run123/'' ''model'') (tree_files model_tree) = sample_objects"
  by code_simp

theorem uploads_follow_tree_witness:
  "scandir (sample_env Nt run_dir dbfs_store) (local_dir_of ''dbfs:/run123/'' ''model'') = Some model_tree
   \<and> valid_tree (os_path (sample_env Nt run_dir dbfs_store)) model_tree
   \<and> fst (copy_artifacts (sample_env Nt run_dir dbfs_store) ''dbfs:/run123/'' (Some ''model'') ([], []))
       = Inr ()
   \<and> map rq_endpoint (requests (snd (snd
         (copy_artifacts (sample_env Nt run_dir dbfs_store) ''dbfs:/run123/'' (Some ''model'') ([], [])))))
       = [''/dbfs/run123/model/MLmodel'', ''/dbfs/run123/model/data/model.h5'']
   \<and> map rq_data (requests (snd (snd
         (copy_artifacts (sample_env Nt run_dir dbfs_store) ''dbfs:/run123/'' (Some ''model'') ([], [])))))
       = [File_data (''/dbfs/run123/model'' @ CHR 0x5C # ''MLmodel'') ''flavors'', Str_data []]"
proof -
  let ?env = "sample_env Nt run_dir dbfs_store"
  have ld: "local_dir_of ''dbfs:/run123/'' ''model'' = ''/dbfs/run123/model''"
    by (simp add: local_dir_of_def strip_prefix_def startswith_def rstrip_def)
  have s: "scandir ?env (local_dir_of ''dbfs:/run123/'' ''model'') = Some model_tree"
    by (simp add: ld sample_env_def run_dir_def)
  have v: "valid_tree (os_path ?env) model_tree"
    using sample_tree_valid by (simp add: sample_env_def)
  from uploads_follow_tree [OF s v sample_nt_run] s v show ?thesis
    by (simp add: sample_nt_run sample_destinations sample_objects_def request_MLmodel_def request_h5_def)
qed

section \<open>A tree without files\<close>

lemma copy_dirs_append:
  "copy_dirs env uri ap local_dir (xs @ ys) s
     = (case copy_dirs env uri ap local_dir xs s of
          (Inl e, s') \<Rightarrow> (Inl e, s')
        | (Inr u, s') \<Rightarrow> copy_dirs env uri ap local_dir ys s')"
proof (induction xs arbitrary: s)
  case Nil
  then show ?case by simp
next
  case (Cons t xs)
  obtain dirpath dirnames filenames where t: "t = (dirpath, dirnames, filenames)" by (cases t)
  show ?case
    by (simp add: t Cons.IH split: sum.splits prod.splits)
qed

lemma copy_dirs_concat_idle:
  assumes "\<forall>xs \<in> set xss. \<forall>s. copy_dirs env uri ap local_dir xs s = (Inr (), s)"
  shows "copy_dirs env uri ap local_dir (concat xss) s = (Inr (), s)"
  using assms
proof (induction xss)
  case Nil
  then show ?case by simp
next
  case (Cons xs xss)
  from Cons.prems have first: "copy_dirs env uri ap local_dir xs s = (Inr (), s)"
    by (cases s) simp
  from Cons have "copy_dirs env uri ap local_dir (concat xss) s = (Inr (), s)"
    by (cases s) simp
  with first show ?case by (simp add: copy_dirs_append)
qed

lemma walk_without_files:
  assumes a: "a \<noteq> []"
  shows "valid_tree (os_path env) t \<Longrightarrow> tree_files t = [] \<Longrightarrow> \<forall>n \<in> set c. valid_name (os_path env) n
     \<Longrightarrow> copy_dirs env uri ap a (os_walk (os_path env) (chain_path (os_path env) a c) t) s = (Inr (), s)"
proof (induction t arbitrary: c s rule: tree_files.induct)
  case (1 files subs)
  let ?h = "os_path env"
  from "1.prems"(1) have subs: "\<forall>nd \<in> set subs. valid_name ?h (fst nd) \<and> valid_tree ?h (snd nd)"
    by simp
  from "1.prems"(2) have files: "files = []" and none: "\<forall>nd \<in> set subs. tree_files (snd nd) = []"
    by auto
  have below: "copy_dirs env uri ap a (os_walk ?h (os_path_join ?h (chain_path ?h a c) (fst nd)) (snd nd)) s'
                 = (Inr (), s')"
    if nd: "nd \<in> set subs" for nd s'
  proof -
    from subs nd "1.prems"(3) have "\<forall>n \<in> set (c @ [fst nd]). valid_name ?h n" by simp
    from "1.IH" [OF nd _ _ this, of s'] subs none nd show ?thesis
      by (simp add: chain_path_snoc)
  qed
  have "copy_dirs env uri ap a
          (concat (map (\<lambda>nd. os_walk ?h (os_path_join ?h (chain_path ?h a c) (fst nd)) (snd nd)) subs)) s
        = (Inr (), s)"
    by (rule copy_dirs_concat_idle) (auto simp: below)
  then show ?case
    by (simp add: files subdir_of_chain [OF a "1.prems"(3)])
qed

text \<open>
  C9. When the resolved local directory does not exist, or exists and holds no file
  anywhere below it, \<^verbatim>\<open>copy_artifacts\<close> returns normally: no upload was attempted and no
  error was raised.
\<close>

theorem nothing_to_copy:
  assumes "case scandir env (local_dir_of artifact_uri artifact_path) of
             None \<Rightarrow> True
           | Some t \<Rightarrow> valid_tree (os_path env) t \<and> tree_files t = []"
  shows "copy_artifacts env artifact_uri (Some artifact_path) (w, tr) = (Inr (), (w, tr))"
proof (cases "scandir env (local_dir_of artifact_uri artifact_path)")
  case None
  then show ?thesis by (simp add: copy_artifacts_Some walk_def)
next
  case (Some t)
  with assms have t: "valid_tree (os_path env) t" "tree_files t = []" by simp_all
  from walk_without_files [OF local_dir_nonempty t, of "[]" artifact_uri artifact_path artifact_uri artifact_path "(w, tr)"]
  show ?thesis by (simp add: copy_artifacts_Some walk_def Some chain_path_def)
qed

theorem nothing_to_copy_witness:
  "scandir (sample_env Posix hollow_dir forbidden) (local_dir_of ''dbfs:/run123/'' ''model'') = Some hollow_tree
   \<and> valid_tree Posix hollow_tree \<and> tree_files hollow_tree = []
   \<and> copy_artifacts (sample_env Posix hollow_dir forbidden) ''dbfs:/run123/'' (Some ''model'') ([], [])
       = (Inr (), ([], []))
   \<and> scandir (sample_env Posix no_dir forbidden) (local_dir_of ''dbfs:/run123/'' ''model'') = None
   \<and> copy_artifacts (sample_env Posix no_dir forbidden) ''dbfs:/run123/'' (Some ''model'') ([], [])
       = (Inr (), ([], []))"
proof -
  have ld: "local_dir_of ''dbfs:/run123/'' ''model'' = ''/dbfs/run123/model''"
    by (simp add: local_dir_of_def strip_prefix_def startswith_def rstrip_def)
  have s: "scandir (sample_env Posix hollow_dir forbidden) (local_dir_of ''dbfs:/run123/'' ''model'')
             = Some hollow_tree"
    by (simp add: ld sample_env_def hollow_dir_def)
  have h: "os_path (sample_env Posix hollow_dir forbidden) = Posix" by (simp add: sample_env_def)
  have v: "valid_tree Posix hollow_tree" by code_simp
  have e: "tree_files hollow_tree = []" by code_simp
  have n: "scandir (sample_env Posix no_dir forbidden) (local_dir_of ''dbfs:/run123/'' ''model'') = None"
    by (simp add: sample_env_def no_dir_def)
  have "copy_artifacts (sample_env Posix hollow_dir forbidden) ''dbfs:/run123/'' (Some ''model'') ([], [])
          = (Inr (), ([], []))"
    by (rule nothing_to_copy) (simp add: s h v e)
  moreover
  have "copy_artifacts (sample_env Posix no_dir forbidden) ''dbfs:/run123/'' (Some ''model'') ([], [])
          = (Inr (), ([], []))"
    by (rule nothing_to_copy) (simp add: n)
  ultimately show ?thesis using s v e n by simp
qed

end
